theory Spec2Isabelle
  imports Main "HOL-Library.Word"
begin

unbundle bit_operations_syntax

section \<open>The persisted store\<close>

text \<open>
  Every program of the repository (\<^verbatim>\<open>main.py\<close>, \<^verbatim>\<open>main_multi_machine.py\<close>,
  \<^verbatim>\<open>merge_databases.py\<close>) creates the same SQLite schema:
  \<^verbatim>\<open>articles(id INTEGER PRIMARY KEY AUTOINCREMENT, title TEXT UNIQUE NOT NULL,
           processed BOOLEAN DEFAULT FALSE, last_updated TIMESTAMP DEFAULT CURRENT_TIMESTAMP)\<close>
  \<^verbatim>\<open>links(id INTEGER PRIMARY KEY AUTOINCREMENT, from_article_id, to_article_title,
        UNIQUE(from_article_id, to_article_title))\<close>
  and a table \<^verbatim>\<open>progress(key, value)\<close> that no statement of the repository reads or
  writes (it is left out of the model).

  A table is the list of its rows in the order of their insertion. A Python \<^verbatim>\<open>str\<close> is
  represented by its UTF-8 bytes (\<open>string\<close> is a list of 8-bit characters), so that
  \<^verbatim>\<open>title.encode('utf-8')\<close> is the byte list itself. A timestamp is a number of
  seconds. The two counters are the rows of \<^verbatim>\<open>sqlite_sequence\<close> that
  \<^verbatim>\<open>AUTOINCREMENT\<close> maintains.
\<close>

record article =
  article_id :: nat
  title :: string
  processed :: bool
  last_updated :: nat

record link =
  link_id :: nat
  from_article_id :: nat
  to_article_title :: string

record store =
  articles :: "article list"
  links :: "link list"
  articles_seq :: nat
  links_seq :: nat

datatype error = OperationalError | TypeError | ZeroDivisionError | OverflowError

text \<open>What the environment does to one use of a connection: nothing, or
  \<^verbatim>\<open>sqlite3.connect\<close> raises, or the \<open>k\<close>-th call of the connection raises.\<close>

datatype fault = NoFault | ConnectFault | StatementFault nat

text \<open>\<^verbatim>\<open>init_database\<close>: \<^verbatim>\<open>CREATE TABLE IF NOT EXISTS\<close> on the file at \<^verbatim>\<open>db_path\<close>;
  \<open>None\<close> is a file that does not exist yet, which SQLite creates empty.\<close>

definition empty_store :: store where
  "empty_store = \<lparr>articles = [], links = [], articles_seq = 0, links_seq = 0\<rparr>"

definition init_database :: "store option \<Rightarrow> store" where
  "init_database file = (case file of None \<Rightarrow> empty_store | Some s \<Rightarrow> s)"

subsection \<open>The SQL statements of the repository\<close>

text \<open>The row id \<^verbatim>\<open>AUTOINCREMENT\<close> gives a new row: one more than the largest id
  the table has ever held.\<close>

definition next_rowid :: "nat \<Rightarrow> nat list \<Rightarrow> nat" where
  "next_rowid seq ids = Suc (fold max ids seq)"

text \<open>\<^verbatim>\<open>INSERT OR IGNORE INTO articles (title, processed) VALUES (?, ?)\<close>; the
  statement \<^verbatim>\<open>INSERT OR IGNORE INTO articles (title) VALUES (?)\<close> is the same with
  the column default \<^verbatim>\<open>FALSE\<close>. The statement draws a row id first, and
  \<^verbatim>\<open>sqlite_sequence\<close> keeps it at the end of the statement. A row whose title is
  already there violates \<^verbatim>\<open>UNIQUE\<close> and is ignored: no row is written, and the
  counter has advanced all the same.\<close>

definition insert_or_ignore_article :: "nat \<Rightarrow> string \<Rightarrow> bool \<Rightarrow> store \<Rightarrow> store" where
  "insert_or_ignore_article now t p s =
     (let i = next_rowid (articles_seq s) (map article_id (articles s))
      in if t \<in> set (map title (articles s)) then s\<lparr>articles_seq := i\<rparr>
         else s\<lparr>articles := articles s @
                   [\<lparr>article_id = i, title = t, processed = p, last_updated = now\<rparr>],
                 articles_seq := i\<rparr>)"

text \<open>\<^verbatim>\<open>SELECT id FROM articles WHERE title = ?\<close> followed by \<^verbatim>\<open>fetchone()\<close>:
  the first matching row, or \<^verbatim>\<open>None\<close>.\<close>

definition select_id_by_title :: "string \<Rightarrow> store \<Rightarrow> nat option" where
  "select_id_by_title t s = map_option article_id (find (\<lambda>a. title a = t) (articles s))"

text \<open>\<^verbatim>\<open>INSERT OR IGNORE INTO links (from_article_id, to_article_title) VALUES (?, ?)\<close>,
  with the counter of the \<^verbatim>\<open>links\<close> table advancing in the same way.\<close>

definition insert_or_ignore_link :: "nat \<Rightarrow> string \<Rightarrow> store \<Rightarrow> store" where
  "insert_or_ignore_link aid target s =
     (let i = next_rowid (links_seq s) (map link_id (links s))
      in if \<exists>l \<in> set (links s). from_article_id l = aid \<and> to_article_title l = target
         then s\<lparr>links_seq := i\<rparr>
         else s\<lparr>links := links s @
                   [\<lparr>link_id = i, from_article_id = aid, to_article_title = target\<rparr>],
                 links_seq := i\<rparr>)"

text \<open>\<^verbatim>\<open>UPDATE articles SET processed = TRUE WHERE id = ?\<close>\<close>

definition update_processed_by_id :: "nat \<Rightarrow> store \<Rightarrow> store" where
  "update_processed_by_id aid s =
     s\<lparr>articles := map (\<lambda>a. if article_id a = aid then a\<lparr>processed := True\<rparr> else a)
                        (articles s)\<rparr>"

text \<open>\<^verbatim>\<open>UPDATE articles SET processed = TRUE WHERE title = ? AND processed = FALSE\<close>\<close>

definition update_processed_by_title :: "string \<Rightarrow> store \<Rightarrow> store" where
  "update_processed_by_title t s =
     s\<lparr>articles := map (\<lambda>a. if title a = t \<and> \<not> processed a then a\<lparr>processed := True\<rparr> else a)
                        (articles s)\<rparr>"

text \<open>\<^verbatim>\<open>SELECT to_article_title FROM links WHERE from_article_id = ?\<close>\<close>

definition select_links_from :: "nat \<Rightarrow> store \<Rightarrow> string list" where
  "select_links_from aid s =
     map to_article_title (filter (\<lambda>l. from_article_id l = aid) (links s))"

text \<open>\<^verbatim>\<open>SELECT title, processed FROM articles\<close>\<close>

definition select_articles :: "store \<Rightarrow> (string \<times> bool) list" where
  "select_articles s = map (\<lambda>a. (title a, processed a)) (articles s)"

text \<open>SQLite's \<^verbatim>\<open>LIMIT n\<close>: the first \<open>n\<close> rows, and every row when \<open>n\<close> is negative.\<close>

definition sql_limit :: "int \<Rightarrow> 'a list \<Rightarrow> 'a list" where
  "sql_limit n rows = (if n < 0 then rows else take (nat n) rows)"

subsection \<open>Connections and transactions\<close>

text \<open>
  A connection of Python's \<^verbatim>\<open>sqlite3\<close> opens a transaction before the first
  \<^verbatim>\<open>INSERT\<close> or \<^verbatim>\<open>UPDATE\<close>; \<^verbatim>\<open>commit()\<close> makes the changes durable,
  \<^verbatim>\<open>rollback()\<close> and \<^verbatim>\<open>close()\<close> discard what is not committed. The file holds
  the \<open>committed\<close> store, the connection sees the \<open>working\<close> store.
\<close>

record conn =
  committed :: store
  working :: store

definition connect :: "store \<Rightarrow> conn" where
  "connect s = \<lparr>committed = s, working = s\<rparr>"

definition commit :: "conn \<Rightarrow> conn" where
  "commit c = c\<lparr>committed := working c\<rparr>"

definition rollback :: "conn \<Rightarrow> conn" where
  "rollback c = c\<lparr>working := committed c\<rparr>"

definition close :: "conn \<Rightarrow> store" where
  "close c = committed c"

text \<open>
  A statement of a transaction, the \<open>k\<close>-th call of the connection: it raises
  \<^verbatim>\<open>sqlite3.Error\<close> without effect when the environment makes call \<open>k\<close> fail
  (\<open>fault = StatementFault k\<close>: a full disk, a lock, an I/O error), and otherwise runs on the
  working store. The result is the connection and the exception raised, if any.
\<close>

definition execute :: "fault \<Rightarrow> nat \<Rightarrow> (store \<Rightarrow> store) \<Rightarrow> conn \<Rightarrow> conn \<times> error option" where
  "execute fault k stmt c =
     (if fault = StatementFault k then (c, Some OperationalError)
      else (c\<lparr>working := stmt (working c)\<rparr>, None))"

definition execute_commit :: "fault \<Rightarrow> nat \<Rightarrow> conn \<Rightarrow> conn \<times> error option" where
  "execute_commit fault k c =
     (if fault = StatementFault k then (c, Some OperationalError) else (commit c, None))"

section \<open>The crawler: \<^verbatim>\<open>main.py\<close> and \<^verbatim>\<open>main_multi_machine.py\<close>\<close>

subsection \<open>\<^verbatim>\<open>save_article_links\<close>\<close>

text \<open>The loop \<^verbatim>\<open>for link in links: cursor.execute(INSERT OR IGNORE INTO links ...)\<close>;
  \<open>k\<close> is the number of calls the connection has served.\<close>

fun insert_links :: "fault \<Rightarrow> nat \<Rightarrow> nat \<Rightarrow> string list \<Rightarrow> conn \<Rightarrow> conn \<times> error option" where
  "insert_links fault k aid [] c = (c, None)"
| "insert_links fault k aid (l # ls) c =
     (case execute fault k (insert_or_ignore_link aid l) c of
        (c', Some e) \<Rightarrow> (c', Some e)
      | (c', None) \<Rightarrow> insert_links fault (Suc k) aid ls c')"

text \<open>The body of the \<^verbatim>\<open>try\<close> block: insert the article, read its id
  (\<^verbatim>\<open>fetchone()[0]\<close> raises \<^verbatim>\<open>TypeError\<close> on \<^verbatim>\<open>None\<close>), insert the links, mark
  the article processed, commit.\<close>

definition save_article_links_try ::
  "fault \<Rightarrow> nat \<Rightarrow> string \<Rightarrow> string list \<Rightarrow> conn \<Rightarrow> conn \<times> error option" where
  "save_article_links_try fault now article_title lnks c =
     (case execute fault 0 (insert_or_ignore_article now article_title False) c of
        (c1, Some e) \<Rightarrow> (c1, Some e)
      | (c1, None) \<Rightarrow>
     (case execute fault 1 (\<lambda>s. s) c1 of
        (c2, Some e) \<Rightarrow> (c2, Some e)
      | (c2, None) \<Rightarrow>
     (case select_id_by_title article_title (working c2) of
        None \<Rightarrow> (c2, Some TypeError)
      | Some aid \<Rightarrow>
     (case insert_links fault 2 aid lnks c2 of
        (c3, Some e) \<Rightarrow> (c3, Some e)
      | (c3, None) \<Rightarrow>
     (case execute fault (2 + length lnks) (update_processed_by_id aid) c3 of
        (c4, Some e) \<Rightarrow> (c4, Some e)
      | (c4, None) \<Rightarrow> execute_commit fault (3 + length lnks) c4)))))"

text \<open>\<^verbatim>\<open>save_article_links\<close>: \<^verbatim>\<open>sqlite3.connect\<close> stands before the
  \<^verbatim>\<open>try\<close>, so its exception leaves the function; then
  \<^verbatim>\<open>except Exception: conn.rollback()\<close> and \<^verbatim>\<open>finally: conn.close()\<close>.
  The result is the store left in the file.\<close>

definition save_article_links :: "fault \<Rightarrow> nat \<Rightarrow> string \<Rightarrow> string list \<Rightarrow> store \<Rightarrow> error + store" where
  "save_article_links fault now article_title lnks db =
     (if fault = ConnectFault then Inl OperationalError
      else (case save_article_links_try fault now article_title lnks (connect db) of
              (c, None) \<Rightarrow> Inr (close c)
            | (c, Some e) \<Rightarrow> Inr (close (rollback c))))"

subsection \<open>\<^verbatim>\<open>get_next_unprocessed_articles\<close>\<close>

text \<open>\<^verbatim>\<open>SELECT title FROM articles WHERE processed = FALSE ORDER BY id LIMIT ?\<close>.
  The batch size is a Python integer, and SQLite's integers have 64 bits: binding a
  value outside \<open>[-2\<^sup>6\<^sup>3, 2\<^sup>6\<^sup>3)\<close> raises \<^verbatim>\<open>OverflowError\<close>, which leaves the
  function.\<close>

definition get_next_unprocessed_articles :: "store \<Rightarrow> int \<Rightarrow> error + string list" where
  "get_next_unprocessed_articles db batch_size =
     (if batch_size < - (2 ^ 63) \<or> 2 ^ 63 \<le> batch_size then Inl OverflowError
      else Inr (map title (sql_limit batch_size
                  (sort_key article_id (filter (\<lambda>a. \<not> processed a) (articles db))))))"

subsection \<open>\<^verbatim>\<open>get_stats\<close>\<close>

text \<open>The three \<^verbatim>\<open>SELECT COUNT(*)\<close> queries; \<^verbatim>\<open>remaining_articles\<close> is
  the difference of the first two.\<close>

record stats =
  total_articles :: nat
  processed_articles :: nat
  total_links :: nat

definition get_stats :: "store \<Rightarrow> stats" where
  "get_stats db =
     \<lparr>total_articles = length (articles db),
      processed_articles = length (filter processed (articles db)),
      total_links = length (links db)\<rparr>"

subsection \<open>\<^verbatim>\<open>hashlib.md5\<close>\<close>

text \<open>
  The digest of RFC 1321, which \<^verbatim>\<open>hashlib.md5(...).hexdigest()\<close> prints in
  hexadecimal: the message is padded with \<open>0x80\<close>, zeros and its length in bits as a
  64-bit little-endian number, and each block of 64 bytes runs through 64 rounds on
  four 32-bit words.
\<close>

type_synonym u32 = "32 word"
type_synonym byte = "8 word"

definition md5_K :: "u32 list" where
  "md5_K =
    [0xd76aa478, 0xe8c7b756, 0x242070db, 0xc1bdceee, 0xf57c0faf, 0x4787c62a, 0xa8304613, 0xfd469501,
     0x698098d8, 0x8b44f7af, 0xffff5bb1, 0x895cd7be, 0x6b901122, 0xfd987193, 0xa679438e, 0x49b40821,
     0xf61e2562, 0xc040b340, 0x265e5a51, 0xe9b6c7aa, 0xd62f105d, 0x02441453, 0xd8a1e681, 0xe7d3fbc8,
     0x21e1cde6, 0xc33707d6, 0xf4d50d87, 0x455a14ed, 0xa9e3e905, 0xfcefa3f8, 0x676f02d9, 0x8d2a4c8a,
     0xfffa3942, 0x8771f681, 0x6d9d6122, 0xfde5380c, 0xa4beea44, 0x4bdecfa9, 0xf6bb4b60, 0xbebfbc70,
     0x289b7ec6, 0xeaa127fa, 0xd4ef3085, 0x04881d05, 0xd9d4d039, 0xe6db99e5, 0x1fa27cf8, 0xc4ac5665,
     0xf4292244, 0x432aff97, 0xab9423a7, 0xfc93a039, 0x655b59c3, 0x8f0ccc92, 0xffeff47d, 0x85845dd1,
     0x6fa87e4f, 0xfe2ce6e0, 0xa3014314, 0x4e0811a1, 0xf7537e82, 0xbd3af235, 0x2ad7d2bb, 0xeb86d391]"

definition md5_s :: "nat list" where
  "md5_s =
    [7, 12, 17, 22, 7, 12, 17, 22, 7, 12, 17, 22, 7, 12, 17, 22,
     5, 9, 14, 20, 5, 9, 14, 20, 5, 9, 14, 20, 5, 9, 14, 20,
     4, 11, 16, 23, 4, 11, 16, 23, 4, 11, 16, 23, 4, 11, 16, 23,
     6, 10, 15, 21, 6, 10, 15, 21, 6, 10, 15, 21, 6, 10, 15, 21]"

definition le_bytes :: "nat \<Rightarrow> 'a::len word \<Rightarrow> byte list" where
  "le_bytes k w = map (\<lambda>i. ucast (drop_bit (8 * i) w)) [0..<k]"

definition md5_pad :: "byte list \<Rightarrow> byte list" where
  "md5_pad m = m @ [0x80] @ replicate ((119 - length m mod 64) mod 64) 0
                 @ le_bytes 8 (of_nat (8 * length m) :: 64 word)"

definition le_word :: "byte list \<Rightarrow> u32" where
  "le_word bs = foldr (\<lambda>b w. push_bit 8 w OR ucast b) bs 0"

definition md5_words :: "byte list \<Rightarrow> u32 list" where
  "md5_words block = map (\<lambda>j. le_word (take 4 (drop (4 * j) block))) [0..<16]"

definition md5_round :: "u32 list \<Rightarrow> nat \<Rightarrow> u32 \<times> u32 \<times> u32 \<times> u32 \<Rightarrow> u32 \<times> u32 \<times> u32 \<times> u32" where
  "md5_round M i st =
     (case st of (a, b, c, d) \<Rightarrow>
        (let (f, g) =
               (if i < 16 then ((b AND c) OR (NOT b AND d), i)
                else if i < 32 then ((d AND b) OR (NOT d AND c), (5 * i + 1) mod 16)
                else if i < 48 then (b XOR c XOR d, (3 * i + 5) mod 16)
                else (c XOR (b OR NOT d), (7 * i) mod 16));
             f' = f + a + md5_K ! i + M ! g
         in (d, b + word_rotl (md5_s ! i) f', b, c)))"

definition md5_block :: "u32 \<times> u32 \<times> u32 \<times> u32 \<Rightarrow> byte list \<Rightarrow> u32 \<times> u32 \<times> u32 \<times> u32" where
  "md5_block st block =
     (case st of (a0, b0, c0, d0) \<Rightarrow>
        (case fold (md5_round (md5_words block)) [0..<64] st of
           (a, b, c, d) \<Rightarrow> (a0 + a, b0 + b, c0 + c, d0 + d)))"

definition md5_digest :: "byte list \<Rightarrow> byte list" where
  "md5_digest m =
     (let p = md5_pad m;
          blocks = map (\<lambda>j. take 64 (drop (64 * j) p)) [0..<length p div 64]
      in case fold (\<lambda>blk st. md5_block st blk) blocks
                (0x67452301, 0xefcdab89, 0x98badcfe, 0x10325476) of
           (a, b, c, d) \<Rightarrow> concat (map (le_bytes 4) [a, b, c, d]))"

text \<open>\<^verbatim>\<open>int(hexdigest, 16)\<close>: the 16 bytes of the digest read as one big-endian
  number.\<close>

definition be_int :: "byte list \<Rightarrow> int" where
  "be_int bs = fold (\<lambda>b n. 256 * n + uint b) bs 0"

text \<open>\<^verbatim>\<open>title.encode('utf-8')\<close>: a title is held as its UTF-8 bytes.\<close>

definition encode_utf8 :: "string \<Rightarrow> byte list" where
  "encode_utf8 t = map (\<lambda>c. of_nat (of_char c)) t"

subsection \<open>Partitioning: \<^verbatim>\<open>get_article_hash\<close> and \<^verbatim>\<open>should_process_article\<close>\<close>

definition get_article_hash :: "string \<Rightarrow> int" where
  "get_article_hash t = be_int (md5_digest (encode_utf8 t))"

text \<open>\<^verbatim>\<open>(article_hash % self.total_machines) == self.machine_id\<close>; Python's
  \<^verbatim>\<open>%\<close> raises on a zero divisor and otherwise takes the sign of the divisor, as
  \<open>mod\<close> on \<open>int\<close> does.\<close>

definition should_process_article :: "int \<Rightarrow> int \<Rightarrow> string \<Rightarrow> error + bool" where
  "should_process_article machine_id total_machines t =
     (let article_hash = get_article_hash t
      in if total_machines = 0 then Inl ZeroDivisionError
         else Inr (article_hash mod total_machines = machine_id))"

subsection \<open>\<^verbatim>\<open>get_article_links\<close>\<close>

text \<open>
  What the request for one page gives: \<open>RequestFailed\<close> when \<^verbatim>\<open>session.get\<close>,
  \<^verbatim>\<open>raise_for_status\<close> or the extraction raises, and otherwise the targets that
  \<^verbatim>\<open>re.findall\<close> finds in the page, each decoded by \<^verbatim>\<open>unquote\<close>.
\<close>

datatype response = RequestFailed | Page "string list"

text \<open>Python's \<^verbatim>\<open>prefix in decoded\<close> on strings.\<close>

definition is_substring :: "string \<Rightarrow> string \<Rightarrow> bool" where
  "is_substring p d = list_ex (\<lambda>k. take (length p) (drop k d) = p) [0..<Suc (length d)]"

definition special_prefixes :: "string list" where
  "special_prefixes =
     [''File:'', ''Category:'', ''Template:'', ''Help:'', ''Special:'', ''Wikipedia:'']"

definition replace_underscores :: "string \<Rightarrow> string" where
  "replace_underscores d = map (\<lambda>c. if c = CHR ''_'' then CHR '' '' else c) d"

text \<open>\<^verbatim>\<open>except Exception: return []\<close> makes a failed request the empty list.
  \<^verbatim>\<open>list(set(clean_links))\<close> removes duplicates; the order Python gives the result
  is not determined, and \<open>remdups\<close> fixes one.\<close>

definition get_article_links :: "response \<Rightarrow> string list" where
  "get_article_links r =
     (case r of
        RequestFailed \<Rightarrow> []
      | Page decoded_links \<Rightarrow>
          remdups (map replace_underscores
            (filter (\<lambda>decoded. \<not> list_ex (\<lambda>prefix. is_substring prefix decoded) special_prefixes)
               decoded_links)))"

subsection \<open>\<^verbatim>\<open>populate_articles_table\<close>\<close>

text \<open>\<^verbatim>\<open>executemany('INSERT OR IGNORE INTO articles (title) VALUES (?)', ...)\<close> over the
  titles of the dump, in \<^verbatim>\<open>main.py\<close>.\<close>

definition populate_articles_table :: "nat \<Rightarrow> string list \<Rightarrow> store \<Rightarrow> store" where
  "populate_articles_table now titles db =
     fold (\<lambda>t. insert_or_ignore_article now t False) titles db"

text \<open>In \<^verbatim>\<open>main_multi_machine.py\<close> the titles are first filtered by
  \<^verbatim>\<open>should_process_article\<close>, whose exception leaves the function.\<close>

fun my_titles :: "int \<Rightarrow> int \<Rightarrow> string list \<Rightarrow> error + string list" where
  "my_titles machine_id total_machines [] = Inr []"
| "my_titles machine_id total_machines (t # ts) =
     (case should_process_article machine_id total_machines t of
        Inl e \<Rightarrow> Inl e
      | Inr mine \<Rightarrow>
          (case my_titles machine_id total_machines ts of
             Inl e \<Rightarrow> Inl e
           | Inr rest \<Rightarrow> Inr (if mine then t # rest else rest)))"

definition populate_articles_table_multi ::
  "int \<Rightarrow> int \<Rightarrow> nat \<Rightarrow> string list \<Rightarrow> store \<Rightarrow> error + store" where
  "populate_articles_table_multi machine_id total_machines now all_titles db =
     (case my_titles machine_id total_machines all_titles of
        Inl e \<Rightarrow> Inl e
      | Inr titles \<Rightarrow> Inr (populate_articles_table now titles db))"

subsection \<open>\<^verbatim>\<open>batch_run\<close>\<close>

text \<open>
  The environment of a run answers the \<open>n\<close>-th request of the run and decides the fault
  of the \<open>n\<close>-th save. The crawler's state is the number of articles it has gone
  through, which also serves as the clock, and the store in its file.
\<close>

record env =
  fetcher :: "nat \<Rightarrow> string \<Rightarrow> response"
  db_fault :: "nat \<Rightarrow> fault"

record crawler =
  tick :: nat
  db :: store

text \<open>The body of \<^verbatim>\<open>for article in articles\<close>: the links are fetched and saved;
  \<^verbatim>\<open>except Exception: continue\<close> takes the exception that leaves
  \<^verbatim>\<open>save_article_links\<close>.\<close>

definition process_article :: "env \<Rightarrow> string \<Rightarrow> crawler \<Rightarrow> crawler" where
  "process_article e article st =
     (let lnks = get_article_links (fetcher e (tick st) article)
      in case save_article_links (db_fault e (tick st)) (tick st) article lnks (db st) of
           Inr db' \<Rightarrow> \<lparr>tick = Suc (tick st), db = db'\<rparr>
         | Inl err \<Rightarrow> \<lparr>tick = Suc (tick st), db = db st\<rparr>)"

text \<open>\<^verbatim>\<open>while True\<close>: the loop ends when no article is left unprocessed, and it
  need not end: \<open>None\<close> is a run that goes on forever. The read of the next batch
  stands outside the \<^verbatim>\<open>try\<close>, so its exception ends the run; the result is the
  exception, if any, and the state the run leaves.\<close>

partial_function (option) batch_run ::
  "env \<Rightarrow> int \<Rightarrow> crawler \<Rightarrow> (error option \<times> crawler) option" where
  "batch_run e batch_size st =
     (case get_next_unprocessed_articles (db st) batch_size of
        Inl err \<Rightarrow> Some (Some err, st)
      | Inr batch \<Rightarrow>
          if batch = [] then Some (None, st)
          else batch_run e batch_size (fold (process_article e) batch st))"

subsection \<open>\<^verbatim>\<open>main\<close> of \<^verbatim>\<open>main_multi_machine.py\<close>: the store it opens\<close>

text \<open>Python's \<^verbatim>\<open>str\<close> of an integer, as the f-string formats
  \<^verbatim>\<open>args.machine_id\<close>.\<close>

fun str_nat :: "nat \<Rightarrow> string" where
  "str_nat n =
     (if n < 10 then [char_of (48 + n)]
      else str_nat (n div 10) @ [char_of (48 + n mod 10)])"

definition str_int :: "int \<Rightarrow> string" where
  "str_int i = (if i < 0 then CHR ''-'' # str_nat (nat (- i)) else str_nat (nat i))"

text \<open>\<^verbatim>\<open>--db-path\<close> with \<^verbatim>\<open>default='wiki_mapping.db'\<close>: \<open>None\<close> is a command
  line without the option.\<close>

definition parse_db_path :: "string option \<Rightarrow> string" where
  "parse_db_path given = (case given of None \<Rightarrow> ''wiki_mapping.db'' | Some p \<Rightarrow> p)"

text \<open>The path \<^verbatim>\<open>main\<close> hands to \<^verbatim>\<open>WikiMapperMultiMachine\<close>, or \<open>None\<close> when the
  machine id is refused and \<^verbatim>\<open>main\<close> returns before it opens a store.\<close>

definition main_db_path :: "int \<Rightarrow> int \<Rightarrow> string option \<Rightarrow> string option" where
  "main_db_path machine_id total_machines given =
     (let args_db_path = parse_db_path given
      in if machine_id < 0 \<or> machine_id \<ge> total_machines then None
         else (let db_path = ''wiki_mapping_machine_'' @ str_int machine_id @ ''.db''
               in if args_db_path \<noteq> ''wiki_mapping.db'' then Some args_db_path
                  else Some db_path))"

section \<open>The merger: \<^verbatim>\<open>merge_databases.py\<close>\<close>

text \<open>What stands at an input path: nothing, something \<^verbatim>\<open>sqlite3.connect\<close> cannot
  open (a directory, a file without permission), a file SQLite cannot read as a store
  of this schema, or a store.\<close>

datatype input_file = Missing | Unopenable | Unreadable | Database store

text \<open>
  The body of \<^verbatim>\<open>for title, processed in articles\<close> up to the copy of the links:
  the article is inserted with the input's flag, an input flag that is true is forced
  on the output row, both ids are read by title, and the links of the input's id are
  inserted under the output's id. The result is the output store and the number of
  links gone through.
\<close>

fun merge_article :: "nat \<Rightarrow> store \<Rightarrow> string \<times> bool \<Rightarrow> store \<Rightarrow> error + (store \<times> nat)" where
  "merge_article now input (t, p) out =
     (let out1 = insert_or_ignore_article now t p out;
          out2 = (if p then update_processed_by_title t out1 else out1)
      in case select_id_by_title t input of
           None \<Rightarrow> Inl TypeError
         | Some input_article_id \<Rightarrow>
             (case select_id_by_title t out2 of
                None \<Rightarrow> Inl TypeError
              | Some output_article_id \<Rightarrow>
                  (let lnks = select_links_from input_article_id input
                   in Inr (fold (insert_or_ignore_link output_article_id) lnks out2,
                           length lnks))))"

text \<open>The loop with its counters and the commit after every 1000 articles. An
  exception leaves the loop; what the failed iteration wrote is not kept, since the
  handler rolls back.\<close>

fun merge_articles ::
  "nat \<Rightarrow> store \<Rightarrow> (string \<times> bool) list \<Rightarrow> conn \<times> nat \<times> nat \<Rightarrow> (conn \<times> nat \<times> nat) \<times> error option" where
  "merge_articles now input [] st = (st, None)"
| "merge_articles now input (row # rows) (c, article_count, link_count) =
     (case merge_article now input row (working c) of
        Inl e \<Rightarrow> ((c, article_count, link_count), Some e)
      | Inr (w, n) \<Rightarrow>
          (let c1 = c\<lparr>working := w\<rparr>;
               c2 = (if Suc article_count mod 1000 = 0 then commit c1 else c1)
           in merge_articles now input rows (c2, Suc article_count, link_count + n)))"

text \<open>\<^verbatim>\<open>merge_database\<close>: \<^verbatim>\<open>False\<close> for a path where no file is, without a
  connection. Both \<^verbatim>\<open>sqlite3.connect\<close> calls stand before the \<^verbatim>\<open>try\<close>, so a
  path that cannot be opened raises out of the function. Otherwise the loop, then
  \<^verbatim>\<open>commit\<close> and \<^verbatim>\<open>True\<close>, or \<^verbatim>\<open>rollback\<close> and \<^verbatim>\<open>False\<close> on an
  exception. The result is the value returned or the exception raised, and the store
  left in the output file.\<close>

definition merge_database ::
  "(string \<Rightarrow> input_file) \<Rightarrow> nat \<Rightarrow> string \<Rightarrow> store \<Rightarrow> (error + bool) \<times> store" where
  "merge_database fs now input_db out =
     (case fs input_db of
        Missing \<Rightarrow> (Inr False, out)
      | Unopenable \<Rightarrow> (Inl OperationalError, out)
      | Unreadable \<Rightarrow> (Inr False, close (rollback (connect out)))
      | Database input \<Rightarrow>
          (case merge_articles now input (select_articles input) (connect out, 0, 0) of
             ((c, article_count, link_count), None) \<Rightarrow> (Inr True, close (commit c))
           | ((c, article_count, link_count), Some e) \<Rightarrow> (Inr False, close (rollback c))))"

text \<open>The loop \<^verbatim>\<open>for db in input_databases\<close> with its counter
  \<^verbatim>\<open>success_count\<close>; an exception of \<^verbatim>\<open>merge_database\<close> ends it.\<close>

fun merge_loop ::
  "(string \<Rightarrow> input_file) \<Rightarrow> nat \<Rightarrow> string list \<Rightarrow> nat \<times> store \<Rightarrow> (error + nat) \<times> store" where
  "merge_loop fs now [] (success_count, out) = (Inr success_count, out)"
| "merge_loop fs now (input_db # rest) (success_count, out) =
     (case merge_database fs now input_db out of
        (Inl e, out') \<Rightarrow> (Inl e, out')
      | (Inr ok, out') \<Rightarrow>
          merge_loop fs now rest
            (if ok then Suc success_count else success_count, out'))"

text \<open>\<^verbatim>\<open>merge_multiple_databases\<close>: the inputs in order, from
  \<^verbatim>\<open>success_count = 0\<close>; the report is \<^verbatim>\<open>success_count\<close> out of
  \<^verbatim>\<open>len(input_databases)\<close>, and it is not reached when an input raises.\<close>

definition merge_multiple_databases ::
  "(string \<Rightarrow> input_file) \<Rightarrow> nat \<Rightarrow> string list \<Rightarrow> store \<Rightarrow> (error + nat) \<times> store" where
  "merge_multiple_databases fs now input_databases out =
     merge_loop fs now input_databases (0, out)"

section \<open>Views of a store and its constraints\<close>

text \<open>The row of a title, and the pairs the \<^verbatim>\<open>links\<close> table holds.\<close>

definition lookup_article :: "string \<Rightarrow> store \<Rightarrow> article option" where
  "lookup_article t s = find (\<lambda>a. title a = t) (articles s)"

definition link_pairs :: "store \<Rightarrow> (nat \<times> string) set" where
  "link_pairs s = set (map (\<lambda>l. (from_article_id l, to_article_title l)) (links s))"

text \<open>The targets of the links that leave the article of a title.\<close>

definition links_of :: "store \<Rightarrow> string \<Rightarrow> string set" where
  "links_of s t =
     (case select_id_by_title t s of
        None \<Rightarrow> {}
      | Some aid \<Rightarrow> set (select_links_from aid s))"

text \<open>
  What the schema promises of a store: \<^verbatim>\<open>title\<close> is \<^verbatim>\<open>UNIQUE\<close>, the pair
  \<^verbatim>\<open>(from_article_id, to_article_title)\<close> is \<^verbatim>\<open>UNIQUE\<close>, every
  \<^verbatim>\<open>from_article_id\<close> references an article, and the ids, given by
  \<^verbatim>\<open>AUTOINCREMENT\<close>, grow with the order of insertion.
\<close>

definition valid_store :: "store \<Rightarrow> bool" where
  "valid_store s \<longleftrightarrow>
     distinct (map title (articles s)) \<and>
     sorted_wrt (<) (map article_id (articles s)) \<and>
     distinct (map (\<lambda>l. (from_article_id l, to_article_title l)) (links s)) \<and>
     sorted_wrt (<) (map link_id (links s)) \<and>
     set (map from_article_id (links s)) \<subseteq> set (map article_id (articles s))"

text \<open>The unprocessed titles in the order of their insertion.\<close>

definition backlog :: "store \<Rightarrow> string list" where
  "backlog s = map title (filter (\<lambda>a. \<not> processed a) (articles s))"

text \<open>A store used in the examples: three seeded titles, the second one crawled.\<close>

definition fruit_store :: store where
  "fruit_store =
     \<lparr>articles =
        [\<lparr>article_id = 1, title = ''Apple'', processed = False, last_updated = 10\<rparr>,
         \<lparr>article_id = 2, title = ''Banana'', processed = True, last_updated = 10\<rparr>,
         \<lparr>article_id = 3, title = ''Cherry'', processed = False, last_updated = 10\<rparr>],
      links = [\<lparr>link_id = 1, from_article_id = 2, to_article_title = ''Cherry''\<rparr>],
      articles_seq = 3, links_seq = 1\<rparr>"

text \<open>Two shards used in the examples, and the output a merge of the first one into a
  fresh store leaves at time 50.\<close>

definition shard_x :: store where
  "shard_x =
     \<lparr>articles =
        [\<lparr>article_id = 1, title = ''Apple'', processed = False, last_updated = 10\<rparr>,
         \<lparr>article_id = 2, title = ''Banana'', processed = True, last_updated = 10\<rparr>],
      links = [\<lparr>link_id = 1, from_article_id = 1, to_article_title = ''Pear''\<rparr>,
               \<lparr>link_id = 2, from_article_id = 2, to_article_title = ''Cherry''\<rparr>],
      articles_seq = 2, links_seq = 2\<rparr>"

definition shard_y :: store where
  "shard_y =
     \<lparr>articles =
        [\<lparr>article_id = 1, title = ''Cherry'', processed = True, last_updated = 12\<rparr>,
         \<lparr>article_id = 2, title = ''Apple'', processed = True, last_updated = 12\<rparr>],
      links = [\<lparr>link_id = 1, from_article_id = 2, to_article_title = ''Banana''\<rparr>,
               \<lparr>link_id = 2, from_article_id = 2, to_article_title = ''Pear''\<rparr>,
               \<lparr>link_id = 3, from_article_id = 1, to_article_title = ''Apple''\<rparr>],
      articles_seq = 2, links_seq = 3\<rparr>"

definition shard_fs :: "string \<Rightarrow> input_file" where
  "shard_fs path =
     (if path = ''x.db'' then Database shard_x
      else if path = ''y.db'' then Database shard_y
      else if path = ''junk.db'' then Unreadable
      else if path = ''dir.db'' then Unopenable
      else Missing)"

definition merged_x :: store where
  "merged_x =
     \<lparr>articles =
        [\<lparr>article_id = 1, title = ''Apple'', processed = False, last_updated = 50\<rparr>,
         \<lparr>article_id = 2, title = ''Banana'', processed = True, last_updated = 50\<rparr>],
      links = [\<lparr>link_id = 1, from_article_id = 1, to_article_title = ''Pear''\<rparr>,
               \<lparr>link_id = 2, from_article_id = 2, to_article_title = ''Cherry''\<rparr>],
      articles_seq = 2, links_seq = 2\<rparr>"

text \<open>The store the loop of \<^verbatim>\<open>merge_database\<close> leaves when no iteration
  raises.\<close>

fun merged :: "nat \<Rightarrow> store \<Rightarrow> (string \<times> bool) list \<Rightarrow> store \<Rightarrow> store" where
  "merged now input [] out = out"
| "merged now input (row # rows) out =
     (case merge_article now input row out of
        Inl e \<Rightarrow> out
      | Inr (w, n) \<Rightarrow> merged now input rows w)"

text \<open>Two stores with the same rows: they differ at most in the counters of
  \<^verbatim>\<open>sqlite_sequence\<close>.\<close>

definition same_rows :: "store \<Rightarrow> store \<Rightarrow> bool" where
  "same_rows s s' \<longleftrightarrow> articles s = articles s' \<and> links s = links s'"

text \<open>The titles of a store, and whether every row of a title is processed.\<close>

definition titles :: "store \<Rightarrow> string set" where
  "titles s = set (map title (articles s))"

definition all_processed :: "store \<Rightarrow> string \<Rightarrow> bool" where
  "all_processed s t = list_all (\<lambda>a. title a = t \<longrightarrow> processed a) (articles s)"

text \<open>An input row is absorbed in the output when the output has the title, has it
  processed if the input has, and holds every link of the input's article under the
  output's id of the title.\<close>

definition absorbed :: "store \<Rightarrow> store \<Rightarrow> string \<times> bool \<Rightarrow> bool" where
  "absorbed input out row =
     (case row of (t, p) \<Rightarrow>
        t \<in> titles out \<and> (p \<longrightarrow> all_processed out t) \<and>
        (case (select_id_by_title t input, select_id_by_title t out) of
           (Some iid, Some oid) \<Rightarrow>
              list_all (\<lambda>l. (oid, l) \<in> link_pairs out) (select_links_from iid input)
         | _ \<Rightarrow> True))"

text \<open>The flag of a title, if the store has the title.\<close>

definition processed_of :: "store \<Rightarrow> string \<Rightarrow> bool option" where
  "processed_of s t = map_option processed (lookup_article t s)"

text \<open>Whether a store stands at an input path.\<close>

definition is_database :: "(string \<Rightarrow> input_file) \<Rightarrow> string \<Rightarrow> bool" where
  "is_database fs path = (case fs path of Database input \<Rightarrow> True | _ \<Rightarrow> False)"

text \<open>The outputs the merge of both shards into a fresh store leaves at time 50, in the
  two orders.\<close>

definition merged_xy :: store where
  "merged_xy =
     \<lparr>articles =
        [\<lparr>article_id = 1, title = ''Apple'', processed = True, last_updated = 50\<rparr>,
         \<lparr>article_id = 2, title = ''Banana'', processed = True, last_updated = 50\<rparr>,
         \<lparr>article_id = 3, title = ''Cherry'', processed = True, last_updated = 50\<rparr>],
      links = [\<lparr>link_id = 1, from_article_id = 1, to_article_title = ''Pear''\<rparr>,
               \<lparr>link_id = 2, from_article_id = 2, to_article_title = ''Cherry''\<rparr>,
               \<lparr>link_id = 3, from_article_id = 3, to_article_title = ''Apple''\<rparr>,
               \<lparr>link_id = 4, from_article_id = 1, to_article_title = ''Banana''\<rparr>],
      articles_seq = 4, links_seq = 5\<rparr>"

definition merged_yx :: store where
  "merged_yx =
     \<lparr>articles =
        [\<lparr>article_id = 1, title = ''Cherry'', processed = True, last_updated = 50\<rparr>,
         \<lparr>article_id = 2, title = ''Apple'', processed = True, last_updated = 50\<rparr>,
         \<lparr>article_id = 4, title = ''Banana'', processed = True, last_updated = 50\<rparr>],
      links = [\<lparr>link_id = 1, from_article_id = 1, to_article_title = ''Apple''\<rparr>,
               \<lparr>link_id = 2, from_article_id = 2, to_article_title = ''Banana''\<rparr>,
               \<lparr>link_id = 3, from_article_id = 2, to_article_title = ''Pear''\<rparr>,
               \<lparr>link_id = 5, from_article_id = 4, to_article_title = ''Cherry''\<rparr>],
      articles_seq = 4, links_seq = 5\<rparr>"

text \<open>An environment in which every request fails and no save meets a fault.\<close>

definition failing_env :: env where
  "failing_env = \<lparr>fetcher = (\<lambda>n t. RequestFailed), db_fault = (\<lambda>n. NoFault)\<rparr>"

section \<open>The store operations\<close>

lemma fold_max_ge: "seq \<le> fold max ids (seq::nat)" "x \<in> set ids \<Longrightarrow> x \<le> fold max ids seq"
proof -
  have "seq \<le> fold max ids seq \<and> (\<forall>x\<in>set ids. x \<le> fold max ids seq)"
  proof (induction ids arbitrary: seq)
    case Nil
    then show ?case by simp
  next
    case (Cons a ids)
    have "max a seq \<le> fold max ids (max a seq)" using Cons.IH by blast
    with Cons.IH [of "max a seq"] show ?case by auto
  qed
  then show "seq \<le> fold max ids seq" "x \<in> set ids \<Longrightarrow> x \<le> fold max ids seq" by auto
qed

lemma next_rowid_gt: "x \<in> set ids \<Longrightarrow> x < next_rowid seq ids"
  using fold_max_ge(2) [of x ids seq] by (simp add: next_rowid_def)

lemma insert_article_present:
  "t \<in> set (map title (articles s)) \<Longrightarrow>
   insert_or_ignore_article now t p s
     = s\<lparr>articles_seq := next_rowid (articles_seq s) (map article_id (articles s))\<rparr>"
  by (simp add: insert_or_ignore_article_def Let_def)

lemma insert_article_present_rows:
  "t \<in> set (map title (articles s)) \<Longrightarrow>
   articles (insert_or_ignore_article now t p s) = articles s"
  by (simp add: insert_article_present)

lemma insert_article_title_in:
  "t \<in> set (map title (articles (insert_or_ignore_article now t p s)))"
  by (simp add: insert_or_ignore_article_def Let_def)

lemma insert_article_prefix:
  "take (length (articles s)) (articles (insert_or_ignore_article now t p s)) = articles s"
  by (simp add: insert_or_ignore_article_def Let_def)

lemma insert_article_distinct:
  "distinct (map title (articles s)) \<Longrightarrow>
   distinct (map title (articles (insert_or_ignore_article now t p s)))"
  by (simp add: insert_or_ignore_article_def Let_def)

lemma distinct_count_one:
  "distinct (map f xs) \<Longrightarrow> y \<in> set (map f xs) \<Longrightarrow> length (filter (\<lambda>a. f a = y) xs) = 1"
proof (induction xs)
  case Nil
  then show ?case by simp
next
  case (Cons a xs)
  show ?case
  proof (cases "f a = y")
    case True
    have "f a \<notin> f ` set xs" using Cons.prems by simp
    then have "\<forall>x\<in>set xs. f x \<noteq> y" using True by blast
    then have "filter (\<lambda>a. f a = y) xs = []" by (simp add: filter_empty_conv)
    with True show ?thesis by simp
  next
    case False
    then show ?thesis using Cons by auto
  qed
qed

text \<open>
  Claim C7. \<^verbatim>\<open>INSERT OR IGNORE INTO articles (title) VALUES (?)\<close> is an idempotent
  insert-if-absent: in a store whose titles are unique, a second call with the same
  title leaves every row of the store of the first call as it is (so neither
  \<^verbatim>\<open>processed\<close> nor \<^verbatim>\<open>last_updated\<close> of the row changes; only the counter of
  \<^verbatim>\<open>sqlite_sequence\<close> advances), exactly one row has the title, and the rows the
  store held before the first call are untouched.
\<close>

theorem upsert_article_idempotent:
  assumes "distinct (map title (articles s))"
  shows "articles (insert_or_ignore_article now2 t False (insert_or_ignore_article now1 t False s))
           = articles (insert_or_ignore_article now1 t False s)
       \<and> links (insert_or_ignore_article now2 t False (insert_or_ignore_article now1 t False s))
           = links (insert_or_ignore_article now1 t False s)
       \<and> length (filter (\<lambda>a. title a = t)
            (articles (insert_or_ignore_article now2 t False
                        (insert_or_ignore_article now1 t False s)))) = 1
       \<and> take (length (articles s)) (articles (insert_or_ignore_article now1 t False s))
           = articles s"
proof -
  let ?s1 = "insert_or_ignore_article now1 t False s"
  have in1: "t \<in> set (map title (articles ?s1))" by (rule insert_article_title_in)
  then have rows: "articles (insert_or_ignore_article now2 t False ?s1) = articles ?s1"
    by (rule insert_article_present_rows)
  have lnk: "links (insert_or_ignore_article now2 t False ?s1) = links ?s1"
    by (simp add: insert_or_ignore_article_def Let_def)
  have "distinct (map title (articles ?s1))"
    using assms by (rule insert_article_distinct)
  then have one: "length (filter (\<lambda>a. title a = t) (articles ?s1)) = 1"
    using in1 by (rule distinct_count_one)
  show ?thesis unfolding rows lnk using one by (simp add: insert_article_prefix)
qed

text \<open>The first call inserts \<^verbatim>\<open>Durian\<close> at time 20 with the id 4, the second call at
  time 30 is ignored and moves the counter to 5; a call for \<^verbatim>\<open>Banana\<close>, a row the
  store has as processed, leaves its rows as they are.\<close>

theorem upsert_article_idempotent_witness:
  "distinct (map title (articles fruit_store))
   \<and> articles (insert_or_ignore_article 30 ''Durian'' False
         (insert_or_ignore_article 20 ''Durian'' False fruit_store))
       = articles fruit_store
           @ [\<lparr>article_id = 4, title = ''Durian'', processed = False, last_updated = 20\<rparr>]
   \<and> articles_seq (insert_or_ignore_article 30 ''Durian'' False
         (insert_or_ignore_article 20 ''Durian'' False fruit_store)) = 5
   \<and> length (filter (\<lambda>a. title a = ''Durian'')
        (articles (insert_or_ignore_article 30 ''Durian'' False
           (insert_or_ignore_article 20 ''Durian'' False fruit_store)))) = 1
   \<and> articles (insert_or_ignore_article 30 ''Banana'' False fruit_store) = articles fruit_store"
  using upsert_article_idempotent [of fruit_store 30 "''Durian''" 20]
  by (simp add: fruit_store_def insert_or_ignore_article_def next_rowid_def Let_def)

subsection \<open>\<^verbatim>\<open>save_article_links\<close> is one transaction\<close>

lemma execute_committed: "committed (fst (execute fault k stmt c)) = committed c"
  by (simp add: execute_def)

lemma insert_links_committed:
  "committed (fst (insert_links fault k aid ls c)) = committed c"
proof (induction ls arbitrary: k c)
  case Nil
  then show ?case by simp
next
  case (Cons l ls)
  then show ?case by (simp add: execute_def)
qed

lemma insert_links_fault:
  "snd (insert_links (StatementFault j) k aid ls c) \<noteq> None \<longleftrightarrow> k \<le> j \<and> j < k + length ls"
proof (induction ls arbitrary: k c)
  case Nil
  then show ?case by simp
next
  case (Cons l ls)
  show ?case
  proof (cases "j = k")
    case True
    then show ?thesis by (simp add: execute_def)
  next
    case False
    then have "snd (insert_links (StatementFault j) k aid (l # ls) c)
        = snd (insert_links (StatementFault j) (Suc k) aid ls
                 (c\<lparr>working := insert_or_ignore_link aid l (working c)\<rparr>))"
      by (simp add: execute_def)
    with Cons.IH False show ?thesis by auto
  qed
qed

lemma insert_links_pass:
  "snd (insert_links fault k aid ls c) = None \<Longrightarrow>
   insert_links fault k aid ls c
     = (c\<lparr>working := fold (insert_or_ignore_link aid) ls (working c)\<rparr>, None)"
proof (induction ls arbitrary: k c)
  case Nil
  then show ?case by simp
next
  case (Cons l ls)
  show ?case
  proof (cases "fault = StatementFault k")
    case True
    with Cons.prems show ?thesis by (simp add: execute_def)
  next
    case False
    with Cons.prems Cons.IH [of "Suc k" "c\<lparr>working := insert_or_ignore_link aid l (working c)\<rparr>"]
    show ?thesis by (simp add: execute_def)
  qed
qed

lemma insert_links_NoFault:
  "insert_links NoFault k aid ls c
     = (c\<lparr>working := fold (insert_or_ignore_link aid) ls (working c)\<rparr>, None)"
proof -
  have "snd (insert_links NoFault k aid ls c) = None"
    by (induction ls arbitrary: k c) (simp_all add: execute_def)
  then show ?thesis by (rule insert_links_pass)
qed

lemma select_id_after_insert:
  "\<exists>aid. select_id_by_title t (insert_or_ignore_article now t p s) = Some aid"
proof -
  have "t \<in> set (map title (articles (insert_or_ignore_article now t p s)))"
    by (rule insert_article_title_in)
  then have "find (\<lambda>a. title a = t) (articles (insert_or_ignore_article now t p s)) \<noteq> None"
    by (auto simp: find_None_iff)
  then show ?thesis by (auto simp: select_id_by_title_def)
qed

lemma insert_links_committed_pair:
  "insert_links fault k aid ls c = (c', r) \<Longrightarrow> committed c' = committed c"
  using insert_links_committed [of fault k aid ls c] by simp

lemma save_try_committed:
  "snd (save_article_links_try fault now t lnks c) \<noteq> None \<Longrightarrow>
   committed (fst (save_article_links_try fault now t lnks c)) = committed c"
  by (auto simp: save_article_links_try_def execute_def execute_commit_def
           split: prod.splits option.splits if_splits dest: insert_links_committed_pair)

lemma save_try_fails:
  assumes "k \<le> length lnks + 3"
  shows "snd (save_article_links_try (StatementFault k) now t lnks c) \<noteq> None"
proof -
  let ?c2 = "c\<lparr>working := insert_or_ignore_article now t False (working c)\<rparr>"
  obtain aid where aid: "select_id_by_title t (working ?c2) = Some aid"
    using select_id_after_insert [of t now False "working c"] by auto
  consider "k = 0" | "k = 1" | "2 \<le> k" "k < 2 + length lnks" | "k = 2 + length lnks" | "k = 3 + length lnks"
    using assms by linarith
  then show ?thesis
  proof cases
    case 1
    then show ?thesis by (simp add: save_article_links_try_def execute_def)
  next
    case 2
    then show ?thesis by (simp add: save_article_links_try_def execute_def)
  next
    case 3
    have "snd (insert_links (StatementFault k) 2 aid lnks ?c2) \<noteq> None"
      using 3 insert_links_fault [of k 2 aid lnks ?c2] by simp
    then obtain c3 e where "insert_links (StatementFault k) 2 aid lnks ?c2 = (c3, Some e)"
      by (cases "insert_links (StatementFault k) 2 aid lnks ?c2") auto
    then show ?thesis using 3 aid
      by (simp add: save_article_links_try_def execute_def)
  next
    case 4
    have "snd (insert_links (StatementFault k) 2 aid lnks ?c2) = None"
      using 4 insert_links_fault [of k 2 aid lnks ?c2] by simp
    from insert_links_pass [OF this] show ?thesis using 4 aid
      by (simp add: save_article_links_try_def execute_def)
  next
    case 5
    have "snd (insert_links (StatementFault k) 2 aid lnks ?c2) = None"
      using 5 insert_links_fault [of k 2 aid lnks ?c2] by simp
    from insert_links_pass [OF this] show ?thesis using 5 aid
      by (simp add: save_article_links_try_def execute_def execute_commit_def)
  qed
qed

text \<open>
  Claim C2. \<^verbatim>\<open>save_article_links\<close> is atomic: when any call of its transaction
  raises (the insert of the article, the read of its id, one of the link inserts, the
  update of the flag or the commit), the rollback leaves the store in the file exactly
  as it was: no link row is added, \<^verbatim>\<open>processed\<close> of the title is what it was, and the
  title is still in the backlog if it was there.
\<close>

theorem save_article_links_atomic:
  assumes "k \<le> length lnks + 3"
  shows "save_article_links (StatementFault k) now t lnks s = Inr s"
proof -
  obtain c r where cr: "save_article_links_try (StatementFault k) now t lnks (connect s) = (c, r)"
    by (cases "save_article_links_try (StatementFault k) now t lnks (connect s)")
  have "r \<noteq> None" using save_try_fails [OF assms, of now t "connect s"] cr by simp
  moreover have "committed c = s"
    using save_try_committed [of "StatementFault k" now t lnks "connect s"] cr \<open>r \<noteq> None\<close>
    by (simp add: connect_def)
  ultimately show ?thesis
    by (auto simp: save_article_links_def cr close_def rollback_def)
qed

theorem save_article_links_atomic_witness:
  "(3::nat) \<le> length [''Banana'', ''Cherry''] + 3
   \<and> save_article_links (StatementFault 3) 20 ''Apple'' [''Banana'', ''Cherry''] fruit_store
         = Inr fruit_store"
  using save_article_links_atomic [of 3 "[''Banana'', ''Cherry'']" 20 "''Apple''" fruit_store]
  by simp

lemma save_article_links_ok:
  assumes "select_id_by_title t (insert_or_ignore_article now t False s) = Some aid"
  shows "save_article_links NoFault now t lnks s
     = Inr (update_processed_by_id aid
             (fold (insert_or_ignore_link aid) lnks (insert_or_ignore_article now t False s)))"
  using assms
  by (simp add: save_article_links_def save_article_links_try_def execute_def
      execute_commit_def insert_links_NoFault connect_def commit_def close_def)

subsection \<open>A successful save\<close>

lemma articles_insert_link [simp]: "articles (insert_or_ignore_link aid l s) = articles s"
  by (simp add: insert_or_ignore_link_def Let_def)

lemma articles_fold_insert_link [simp]:
  "articles (fold (insert_or_ignore_link aid) ls s) = articles s"
  by (induction ls arbitrary: s) simp_all

lemma link_pairs_insert_link:
  "link_pairs (insert_or_ignore_link aid l s) = insert (aid, l) (link_pairs s)"
  by (auto simp: insert_or_ignore_link_def link_pairs_def Let_def image_iff)

lemma link_pairs_fold_insert_link:
  "link_pairs (fold (insert_or_ignore_link aid) ls s) = link_pairs s \<union> {aid} \<times> set ls"
  by (induction ls arbitrary: s) (auto simp: link_pairs_insert_link)

lemma links_update_by_id [simp]: "links (update_processed_by_id aid s) = links s"
  by (simp add: update_processed_by_id_def)

lemma links_insert_article [simp]: "links (insert_or_ignore_article now t p s) = links s"
  by (simp add: insert_or_ignore_article_def Let_def)

lemma link_pairs_cong: "links s = links s' \<Longrightarrow> link_pairs s = link_pairs s'"
  by (simp add: link_pairs_def)

lemma find_map_preserve:
  "(\<And>a. P (g a) = P a) \<Longrightarrow> find P (map g xs) = map_option g (find P xs)"
  by (induction xs) simp_all

lemma lookup_update_by_id:
  "lookup_article t (update_processed_by_id aid s)
     = map_option (\<lambda>a. if article_id a = aid then a\<lparr>processed := True\<rparr> else a)
         (lookup_article t s)"
  by (simp add: lookup_article_def update_processed_by_id_def find_map_preserve)

lemma lookup_fold_insert_link [simp]:
  "lookup_article t (fold (insert_or_ignore_link aid) ls s) = lookup_article t s"
  by (simp add: lookup_article_def)

lemma select_id_lookup: "select_id_by_title t s = map_option article_id (lookup_article t s)"
  by (simp add: select_id_by_title_def lookup_article_def)

lemma lookup_insert_article_present:
  "lookup_article t s = Some a \<Longrightarrow> lookup_article t (insert_or_ignore_article now t p s) = Some a"
proof -
  assume a: "lookup_article t s = Some a"
  then have "t \<in> set (map title (articles s))"
    by (auto simp: lookup_article_def find_Some_iff)
  then show ?thesis using a by (simp add: insert_article_present lookup_article_def)
qed

text \<open>
  Claim C6, as the code has it. A save that meets no fault ends with the row of the
  title marked processed and with the links of the call added to the link pairs of
  the store (a pair already there is ignored), in the one transaction. It does not
  refresh \<^verbatim>\<open>last_updated\<close>: the \<^verbatim>\<open>UPDATE\<close> sets \<^verbatim>\<open>processed\<close> only, so every
  row the store held before the call keeps its time stamp, and the row of the title
  keeps the one it had when it exists already.
\<close>

theorem save_article_links_success:
  "\<exists>s' a. save_article_links NoFault now t lnks s = Inr s'
     \<and> lookup_article t s' = Some a \<and> processed a
     \<and> link_pairs s' = link_pairs s \<union> {article_id a} \<times> set lnks
     \<and> map last_updated (take (length (articles s)) (articles s')) = map last_updated (articles s)
     \<and> (\<forall>a0. lookup_article t s = Some a0 \<longrightarrow> last_updated a = last_updated a0)"
proof -
  let ?s1 = "insert_or_ignore_article now t False s"
  let ?upd = "\<lambda>aid a. if article_id a = aid then a\<lparr>processed := True\<rparr> else a"
  obtain aid where aid: "select_id_by_title t ?s1 = Some aid"
    using select_id_after_insert by blast
  then obtain a1 where a1: "lookup_article t ?s1 = Some a1" "article_id a1 = aid"
    by (auto simp: select_id_lookup)
  let ?s' = "update_processed_by_id aid (fold (insert_or_ignore_link aid) lnks ?s1)"
  let ?a = "a1\<lparr>processed := True\<rparr>"
  have ok: "save_article_links NoFault now t lnks s = Inr ?s'"
    by (rule save_article_links_ok [OF aid])
  have look: "lookup_article t ?s' = Some ?a"
    using a1 by (simp add: lookup_update_by_id)
  have pairs: "link_pairs ?s' = link_pairs s \<union> {article_id ?a} \<times> set lnks"
  proof -
    have "link_pairs ?s' = link_pairs (fold (insert_or_ignore_link aid) lnks ?s1)"
      by (rule link_pairs_cong) simp
    also have "\<dots> = link_pairs ?s1 \<union> {aid} \<times> set lnks"
      by (rule link_pairs_fold_insert_link)
    also have "link_pairs ?s1 = link_pairs s"
      by (rule link_pairs_cong) simp
    finally show ?thesis using a1 by simp
  qed
  have arts: "articles ?s' = map (?upd aid) (articles ?s1)"
    by (simp add: update_processed_by_id_def)
  have "map last_updated (take (length (articles s)) (articles ?s'))
          = map last_updated (take (length (articles s)) (articles ?s1))"
    unfolding arts take_map by (simp add: comp_def if_distrib cong: if_cong)
  then have stamps: "map last_updated (take (length (articles s)) (articles ?s'))
          = map last_updated (articles s)"
    by (simp add: insert_article_prefix)
  have old: "\<forall>a0. lookup_article t s = Some a0 \<longrightarrow> last_updated ?a = last_updated a0"
    using a1 by (auto dest: lookup_insert_article_present [where now = now and p = False])
  from ok look pairs stamps old show ?thesis by (intro exI [of _ ?s'] exI [of _ ?a]) simp
qed

theorem save_article_links_success_witness:
  "save_article_links NoFault 20 ''Apple'' [''Banana''] fruit_store =
     Inr \<lparr>articles =
        [\<lparr>article_id = 1, title = ''Apple'', processed = True, last_updated = 10\<rparr>,
         \<lparr>article_id = 2, title = ''Banana'', processed = True, last_updated = 10\<rparr>,
         \<lparr>article_id = 3, title = ''Cherry'', processed = False, last_updated = 10\<rparr>],
      links = [\<lparr>link_id = 1, from_article_id = 2, to_article_title = ''Cherry''\<rparr>,
               \<lparr>link_id = 2, from_article_id = 1, to_article_title = ''Banana''\<rparr>],
      articles_seq = 4, links_seq = 2\<rparr>"
  using save_article_links_success [of 20 "''Apple''" "[''Banana'']" fruit_store]
  by (simp add: save_article_links_def save_article_links_try_def execute_def
      execute_commit_def connect_def commit_def close_def fruit_store_def
      insert_or_ignore_article_def select_id_by_title_def insert_or_ignore_link_def
      update_processed_by_id_def next_rowid_def Let_def)

text \<open>
  The claim as stated fails: \<^verbatim>\<open>Apple\<close> was inserted at time 10, the save runs at
  time 20, and the row is marked processed with \<^verbatim>\<open>last_updated\<close> still 10.
\<close>

theorem save_article_links_last_updated_counterexample:
  "save_article_links NoFault 20 ''Apple'' [] fruit_store =
     Inr \<lparr>articles =
        [\<lparr>article_id = 1, title = ''Apple'', processed = True, last_updated = 10\<rparr>,
         \<lparr>article_id = 2, title = ''Banana'', processed = True, last_updated = 10\<rparr>,
         \<lparr>article_id = 3, title = ''Cherry'', processed = False, last_updated = 10\<rparr>],
      links = [\<lparr>link_id = 1, from_article_id = 2, to_article_title = ''Cherry''\<rparr>],
      articles_seq = 4, links_seq = 1\<rparr>
   \<and> map_option last_updated (lookup_article ''Apple'' fruit_store) = Some 10"
  by (simp add: lookup_article_def save_article_links_def save_article_links_try_def execute_def
      execute_commit_def connect_def commit_def close_def fruit_store_def
      insert_or_ignore_article_def select_id_by_title_def
      update_processed_by_id_def next_rowid_def Let_def)

subsection \<open>\<^verbatim>\<open>get_next_unprocessed_articles\<close>\<close>

lemma sort_key_filter_sorted:
  assumes "sorted_wrt (<) (map article_id xs)"
  shows "sort_key article_id (filter P xs) = filter P xs"
proof -
  have "sorted (map article_id xs)"
    using assms by (simp add: strict_sorted_imp_sorted)
  then have "sorted (map article_id (filter P xs))"
    by (rule sorted_filter)
  then show ?thesis by (rule sort_key_id_if_sorted)
qed

lemma find_distinct_title:
  "distinct (map title xs) \<Longrightarrow> a \<in> set xs \<Longrightarrow> find (\<lambda>b. title b = title a) xs = Some a"
  by (induction xs) (auto simp: image_iff)

lemma get_next_backlog:
  "valid_store s \<Longrightarrow>
   get_next_unprocessed_articles s n
     = (if n < - (2 ^ 63) \<or> 2 ^ 63 \<le> n then Inl OverflowError
        else Inr (sql_limit n (backlog s)))"
  by (simp add: get_next_unprocessed_articles_def valid_store_def backlog_def
      sort_key_filter_sorted sql_limit_def take_map)

text \<open>
  Claim C8, as the code has it. In a store that meets its schema, a batch size
  \<open>n\<close> with \<open>0 \<le> n < 2\<^sup>6\<^sup>3\<close> gives the first \<open>n\<close> titles of the backlog (the
  unprocessed titles in the order of their insertion), so at most \<open>n\<close> titles; a
  batch size with \<open>-2\<^sup>6\<^sup>3 \<le> n < 0\<close> gives the whole backlog, since SQLite reads a
  negative \<^verbatim>\<open>LIMIT\<close> as no limit; a batch size outside the 64-bit range gives no
  titles but \<^verbatim>\<open>OverflowError\<close>. Every title returned is the title of a row with
  \<^verbatim>\<open>processed = FALSE\<close>.
\<close>

theorem get_next_unprocessed_articles_fifo:
  assumes "valid_store s"
  shows "(0 \<le> n \<and> n < 2 ^ 63 \<longrightarrow>
            get_next_unprocessed_articles s n = Inr (take (nat n) (backlog s))
            \<and> int (length (take (nat n) (backlog s))) \<le> n)
       \<and> (- (2 ^ 63) \<le> n \<and> n < 0 \<longrightarrow> get_next_unprocessed_articles s n = Inr (backlog s))
       \<and> (n < - (2 ^ 63) \<or> 2 ^ 63 \<le> n \<longrightarrow>
            get_next_unprocessed_articles s n = Inl OverflowError)
       \<and> (\<forall>batch. get_next_unprocessed_articles s n = Inr batch \<longrightarrow>
            (\<forall>t \<in> set batch. \<exists>a. lookup_article t s = Some a \<and> \<not> processed a))"
proof -
  have eq: "get_next_unprocessed_articles s n
     = (if n < - (2 ^ 63) \<or> 2 ^ 63 \<le> n then Inl OverflowError
        else Inr (sql_limit n (backlog s)))"
    using assms by (rule get_next_backlog)
  have sub: "set (sql_limit n (backlog s)) \<subseteq> set (backlog s)"
    by (auto simp: sql_limit_def dest: in_set_takeD)
  have row: "\<exists>a. lookup_article t s = Some a \<and> \<not> processed a" if "t \<in> set (backlog s)" for t
  proof -
    from that obtain a where a: "a \<in> set (articles s)" "title a = t" "\<not> processed a"
      by (auto simp: backlog_def)
    have "distinct (map title (articles s))" using assms by (simp add: valid_store_def)
    then have "lookup_article (title a) s = Some a"
      unfolding lookup_article_def using a(1) by (rule find_distinct_title)
    with a show ?thesis by auto
  qed
  have len: "int (length (take (nat n) (backlog s))) \<le> n" if "0 \<le> n"
    using that by simp
  have rows: "\<forall>batch. get_next_unprocessed_articles s n = Inr batch \<longrightarrow>
            (\<forall>t \<in> set batch. \<exists>a. lookup_article t s = Some a \<and> \<not> processed a)"
    using sub row unfolding eq by (auto split: if_splits)
  have first: "0 \<le> n \<and> n < 2 ^ 63 \<longrightarrow>
            get_next_unprocessed_articles s n = Inr (take (nat n) (backlog s))
            \<and> int (length (take (nat n) (backlog s))) \<le> n"
    using len unfolding eq by (simp add: sql_limit_def)
  have neg: "- (2 ^ 63) \<le> n \<and> n < 0 \<longrightarrow> get_next_unprocessed_articles s n = Inr (backlog s)"
    unfolding eq by (simp add: sql_limit_def)
  have ovf: "n < - (2 ^ 63) \<or> 2 ^ 63 \<le> n \<longrightarrow>
            get_next_unprocessed_articles s n = Inl OverflowError"
    unfolding eq by simp
  from first neg ovf rows show ?thesis by blast
qed

theorem get_next_unprocessed_articles_fifo_witness:
  "valid_store fruit_store
   \<and> get_next_unprocessed_articles fruit_store 1 = Inr [''Apple'']
   \<and> get_next_unprocessed_articles fruit_store 5 = Inr [''Apple'', ''Cherry'']
   \<and> get_next_unprocessed_articles fruit_store (- 7) = Inr [''Apple'', ''Cherry'']
   \<and> get_next_unprocessed_articles fruit_store (2 ^ 63) = Inl OverflowError
   \<and> get_next_unprocessed_articles fruit_store (- (2 ^ 63) - 1) = Inl OverflowError
   \<and> backlog fruit_store = [''Apple'', ''Cherry'']"
  using get_next_unprocessed_articles_fifo [of fruit_store 1]
    get_next_unprocessed_articles_fifo [of fruit_store 5]
    get_next_unprocessed_articles_fifo [of fruit_store "- 7"]
    get_next_unprocessed_articles_fifo [of fruit_store "2 ^ 63"]
    get_next_unprocessed_articles_fifo [of fruit_store "- (2 ^ 63) - 1"]
  by (simp add: valid_store_def fruit_store_def backlog_def)

text \<open>
  The claim as stated fails for a negative limit, which \<^verbatim>\<open>--batch-size\<close> accepts
  (\<^verbatim>\<open>type=int\<close>): with \<^verbatim>\<open>LIMIT -1\<close> two titles are returned.
\<close>

theorem get_next_unprocessed_articles_limit_counterexample:
  "get_next_unprocessed_articles fruit_store (- 1) = Inr [''Apple'', ''Cherry'']
   \<and> \<not> int (length [''Apple'', ''Cherry'']) \<le> - 1"
  by (simp add: get_next_unprocessed_articles_def fruit_store_def sql_limit_def)

subsection \<open>The store \<^verbatim>\<open>main\<close> of \<^verbatim>\<open>main_multi_machine.py\<close> opens\<close>

declare str_nat.simps [simp del]

text \<open>
  Claim C10. A command line without \<^verbatim>\<open>--db-path\<close> and one that passes
  \<^verbatim>\<open>--db-path wiki_mapping.db\<close> open the same store; when the machine id is accepted
  it is \<^verbatim>\<open>wiki_mapping_machine_{machine_id}.db\<close>, not the path asked for, and when
  the machine id is refused no store is opened.
\<close>

theorem main_db_path_default:
  "main_db_path machine_id total_machines None
     = main_db_path machine_id total_machines (Some ''wiki_mapping.db'')
   \<and> (0 \<le> machine_id \<and> machine_id < total_machines \<longrightarrow>
        main_db_path machine_id total_machines (Some ''wiki_mapping.db'')
          = Some (''wiki_mapping_machine_'' @ str_int machine_id @ ''.db''))
   \<and> (\<not> (0 \<le> machine_id \<and> machine_id < total_machines) \<longrightarrow>
        main_db_path machine_id total_machines (Some ''wiki_mapping.db'') = None)"
  by (auto simp: main_db_path_def parse_db_path_def Let_def)

theorem main_db_path_default_witness:
  "(0::int) \<le> 12 \<and> (12::int) < 16
   \<and> main_db_path 12 16 None = Some ''wiki_mapping_machine_12.db''
   \<and> main_db_path 12 16 (Some ''wiki_mapping.db'') = Some ''wiki_mapping_machine_12.db''
   \<and> main_db_path 12 16 (Some ''shard.db'') = Some ''shard.db''"
proof -
  have "str_int 12 = ''12''" by code_simp
  then show ?thesis using main_db_path_default [of 12 16]
    by (simp add: main_db_path_def parse_db_path_def)
qed

section \<open>The merger\<close>

subsection \<open>What one article of the input does to the output\<close>

lemma select_id_Some_iff:
  "(\<exists>i. select_id_by_title t s = Some i) \<longleftrightarrow> t \<in> titles s"
proof -
  have "find (\<lambda>a. title a = t) (articles s) \<noteq> None \<longleftrightarrow> t \<in> titles s"
    by (auto simp: find_None_iff titles_def)
  then show ?thesis by (auto simp: select_id_by_title_def)
qed

lemma titles_insert_article: "titles (insert_or_ignore_article now t p s) = insert t (titles s)"
  by (auto simp: insert_or_ignore_article_def titles_def Let_def)

lemma map_title_update:
  "map title (map (\<lambda>a. if C a then a\<lparr>processed := True\<rparr> else a) xs) = map title xs"
  by (induction xs) simp_all

lemma map_article_id_update:
  "map article_id (map (\<lambda>a. if C a then a\<lparr>processed := True\<rparr> else a) xs) = map article_id xs"
  by (induction xs) simp_all

lemma find_append_cases:
  "find P (xs @ ys) = (case find P xs of None \<Rightarrow> find P ys | Some x \<Rightarrow> Some x)"
  by (induction xs) simp_all

lemma titles_update_by_title [simp]: "titles (update_processed_by_title t s) = titles s"
  unfolding titles_def update_processed_by_title_def by (simp add: map_title_update del: map_map)

lemma titles_fold_insert_link [simp]: "titles (fold (insert_or_ignore_link aid) ls s) = titles s"
  by (simp add: titles_def)

lemma select_id_insert_article:
  "t \<in> titles s \<Longrightarrow> select_id_by_title t (insert_or_ignore_article now t' p s) = select_id_by_title t s"
proof -
  assume "t \<in> titles s"
  then have "find (\<lambda>a. title a = t) (articles s) \<noteq> None"
    by (auto simp: find_None_iff titles_def)
  then show ?thesis
    by (auto simp: select_id_by_title_def insert_or_ignore_article_def Let_def find_append_cases)
qed

lemma map_option_article_id_update:
  "map_option article_id (map_option (\<lambda>a. if C a then a\<lparr>processed := True\<rparr> else a) x)
     = map_option article_id x"
  by (cases x) simp_all

lemma select_id_update_by_title [simp]:
  "select_id_by_title t (update_processed_by_title t' s) = select_id_by_title t s"
proof -
  have "find (\<lambda>a. title a = t)
          (map (\<lambda>a. if title a = t' \<and> \<not> processed a then a\<lparr>processed := True\<rparr> else a) (articles s))
        = map_option (\<lambda>a. if title a = t' \<and> \<not> processed a then a\<lparr>processed := True\<rparr> else a)
            (find (\<lambda>a. title a = t) (articles s))"
    by (rule find_map_preserve) simp
  then show ?thesis
    by (simp add: select_id_by_title_def update_processed_by_title_def map_option_article_id_update)
qed

lemma select_id_fold_insert_link [simp]:
  "select_id_by_title t (fold (insert_or_ignore_link aid) ls s) = select_id_by_title t s"
  by (simp add: select_id_by_title_def)

lemma links_update_by_title [simp]: "links (update_processed_by_title t s) = links s"
  by (simp add: update_processed_by_title_def)

lemma link_pairs_update_by_title [simp]:
  "link_pairs (update_processed_by_title t s) = link_pairs s"
  by (simp add: link_pairs_def)

lemma link_pairs_insert_article [simp]:
  "link_pairs (insert_or_ignore_article now t p s) = link_pairs s"
  by (simp add: link_pairs_def)

lemma all_processed_insert_article:
  "t \<in> titles s \<Longrightarrow> all_processed s t \<Longrightarrow> all_processed (insert_or_ignore_article now t' p s) t"
  by (auto simp: all_processed_def insert_or_ignore_article_def Let_def titles_def list_all_iff)

lemma all_processed_update_by_title:
  "all_processed s t \<Longrightarrow> all_processed (update_processed_by_title t' s) t"
  by (auto simp: all_processed_def update_processed_by_title_def list_all_iff)

lemma list_all_update_same:
  "list_all (\<lambda>a. title a = t \<longrightarrow> processed a)
     (map (\<lambda>a. if title a = t \<and> \<not> processed a then a\<lparr>processed := True\<rparr> else a) xs)"
  by (induction xs) simp_all

lemma all_processed_update_same: "all_processed (update_processed_by_title t s) t"
  by (simp add: all_processed_def update_processed_by_title_def list_all_update_same)

lemma all_processed_fold_insert_link [simp]:
  "all_processed (fold (insert_or_ignore_link aid) ls s) t = all_processed s t"
  by (simp add: all_processed_def)

lemma insert_link_noop:
  "(aid, l) \<in> link_pairs s \<Longrightarrow>
   insert_or_ignore_link aid l s
     = s\<lparr>links_seq := next_rowid (links_seq s) (map link_id (links s))\<rparr>"
  by (auto simp: insert_or_ignore_link_def link_pairs_def Let_def)

lemma fold_insert_link_noop:
  "list_all (\<lambda>l. (aid, l) \<in> link_pairs s) ls \<Longrightarrow>
   links (fold (insert_or_ignore_link aid) ls s) = links s"
proof (induction ls arbitrary: s)
  case Nil
  then show ?case by simp
next
  case (Cons l ls)
  let ?s1 = "s\<lparr>links_seq := next_rowid (links_seq s) (map link_id (links s))\<rparr>"
  have step: "insert_or_ignore_link aid l s = ?s1"
    using Cons.prems by (simp add: insert_link_noop)
  have "link_pairs ?s1 = link_pairs s" by (simp add: link_pairs_def)
  then have "list_all (\<lambda>l. (aid, l) \<in> link_pairs ?s1) ls"
    using Cons.prems by simp
  from Cons.IH [OF this] show ?case by (simp add: step)
qed

lemma same_rows_refl [simp]: "same_rows s s"
  by (simp add: same_rows_def)

lemma same_rows_trans: "same_rows a b \<Longrightarrow> same_rows b c \<Longrightarrow> same_rows a c"
  by (simp add: same_rows_def)

lemma absorbed_same_rows:
  assumes "same_rows out out'"
  shows "absorbed input out r = absorbed input out' r"
proof -
  have a: "articles out = articles out'" and l: "links out = links out'"
    using assms by (simp_all add: same_rows_def)
  have t: "titles out = titles out'" using a by (simp add: titles_def)
  have ap: "all_processed out u = all_processed out' u" for u
    using a by (simp add: all_processed_def)
  have sel: "select_id_by_title u out = select_id_by_title u out'" for u
    using a by (simp add: select_id_by_title_def)
  have lp: "link_pairs out = link_pairs out'" using l by (simp add: link_pairs_def)
  show ?thesis unfolding absorbed_def by (simp only: t ap sel lp)
qed

lemma get_stats_same_rows: "same_rows s s' \<Longrightarrow> get_stats s = get_stats s'"
  by (simp add: same_rows_def get_stats_def)

lemma update_by_title_noop:
  "all_processed s t \<Longrightarrow> update_processed_by_title t s = s"
proof -
  assume "all_processed s t"
  then have "map (\<lambda>a. if title a = t \<and> \<not> processed a then a\<lparr>processed := True\<rparr> else a) (articles s)
               = articles s"
    by (intro map_idI) (auto simp: all_processed_def list_all_iff)
  then show ?thesis by (simp add: update_processed_by_title_def)
qed

text \<open>The store a step of the loop leaves, written out.\<close>

lemma merge_article_eq:
  assumes "select_id_by_title t input = Some iid"
  shows "\<exists>oid. select_id_by_title t (insert_or_ignore_article now t p out) = Some oid \<and>
           merge_article now input (t, p) out =
             Inr (fold (insert_or_ignore_link oid) (select_links_from iid input)
                    (if p then update_processed_by_title t (insert_or_ignore_article now t p out)
                     else insert_or_ignore_article now t p out),
                  length (select_links_from iid input))"
proof -
  obtain oid where "select_id_by_title t (insert_or_ignore_article now t p out) = Some oid"
    using select_id_after_insert by blast
  then show ?thesis using assms by (cases p) (simp_all add: Let_def)
qed

lemma merge_article_Inr_input:
  "merge_article now input (t, p) out = Inr x \<Longrightarrow> \<exists>iid. select_id_by_title t input = Some iid"
  by (auto simp: Let_def split: option.splits)

declare merge_article.simps [simp del]

lemma merge_article_noop:
  assumes "absorbed input out (t, p)" and "select_id_by_title t input = Some iid"
  shows "\<exists>out'. merge_article now input (t, p) out
                   = Inr (out', length (select_links_from iid input))
               \<and> same_rows out' out"
proof -
  let ?o1 = "out\<lparr>articles_seq := next_rowid (articles_seq out) (map article_id (articles out))\<rparr>"
  from assms(1) have t: "t \<in> titles out" and p: "p \<longrightarrow> all_processed out t"
    by (simp_all add: absorbed_def)
  from t obtain oid where oid: "select_id_by_title t out = Some oid"
    using select_id_Some_iff by blast
  from assms oid have lnk: "list_all (\<lambda>l. (oid, l) \<in> link_pairs out) (select_links_from iid input)"
    by (simp add: absorbed_def)
  have ins: "insert_or_ignore_article now t p out = ?o1"
    using t by (simp add: insert_article_present titles_def)
  have p1: "p \<longrightarrow> all_processed ?o1 t" using p by (simp add: all_processed_def)
  have upd: "(if p then update_processed_by_title t ?o1 else ?o1) = ?o1"
    using p1 by (simp add: update_by_title_noop)
  have oid1: "select_id_by_title t ?o1 = Some oid"
    using oid by (simp add: select_id_by_title_def)
  have "link_pairs ?o1 = link_pairs out" by (simp add: link_pairs_def)
  then have lnk1: "list_all (\<lambda>l. (oid, l) \<in> link_pairs ?o1) (select_links_from iid input)"
    using lnk by simp
  let ?out' = "fold (insert_or_ignore_link oid) (select_links_from iid input) ?o1"
  have "merge_article now input (t, p) out
          = Inr (?out', length (select_links_from iid input))"
    using assms(2) oid1 by (simp add: merge_article.simps ins Let_def upd)
  moreover have "same_rows ?out' out"
    using fold_insert_link_noop [OF lnk1] by (simp add: same_rows_def)
  ultimately show ?thesis by blast
qed

lemma merge_article_absorbs:
  assumes "merge_article now input (t, p) out = Inr (out', n)"
  shows "absorbed input out' (t, p)"
proof -
  from assms obtain iid where iid: "select_id_by_title t input = Some iid"
    using merge_article_Inr_input by blast
  let ?o1 = "insert_or_ignore_article now t p out"
  let ?o2 = "if p then update_processed_by_title t ?o1 else ?o1"
  from merge_article_eq [OF iid, of now p out] obtain oid where
    oid: "select_id_by_title t ?o1 = Some oid" and
    eq: "merge_article now input (t, p) out =
           Inr (fold (insert_or_ignore_link oid) (select_links_from iid input) ?o2,
                length (select_links_from iid input))"
    by blast
  from eq assms have
    out': "out' = fold (insert_or_ignore_link oid) (select_links_from iid input) ?o2"
    by simp
  have "t \<in> titles out'" by (simp add: out' titles_insert_article)
  moreover have "p \<longrightarrow> all_processed out' t" by (simp add: out' all_processed_update_same)
  moreover have "select_id_by_title t out' = Some oid"
    using oid by (cases p) (simp_all add: out')
  moreover have "list_all (\<lambda>l. (oid, l) \<in> link_pairs out') (select_links_from iid input)"
    by (simp add: out' link_pairs_fold_insert_link list_all_iff)
  ultimately show ?thesis using iid by (simp add: absorbed_def)
qed

lemma merge_article_keeps_absorbed:
  assumes "absorbed input out (t, p)"
    and "merge_article now' input' (t', p') out = Inr (out', n)"
  shows "absorbed input out' (t, p)"
proof -
  from assms(2) obtain iid' where iid': "select_id_by_title t' input' = Some iid'"
    using merge_article_Inr_input by blast
  let ?o1 = "insert_or_ignore_article now' t' p' out"
  let ?o2 = "if p' then update_processed_by_title t' ?o1 else ?o1"
  from merge_article_eq [OF iid', of now' p' out] obtain oid' where
    eq: "merge_article now' input' (t', p') out =
           Inr (fold (insert_or_ignore_link oid') (select_links_from iid' input') ?o2,
                length (select_links_from iid' input'))"
    by blast
  from eq assms(2) have
    out': "out' = fold (insert_or_ignore_link oid') (select_links_from iid' input') ?o2"
    by simp
  from assms(1) have t: "t \<in> titles out" and p: "p \<longrightarrow> all_processed out t"
    by (simp_all add: absorbed_def)
  have t': "t \<in> titles out'" using t by (simp add: out' titles_insert_article)
  have p': "p \<longrightarrow> all_processed out' t"
    using t p by (simp add: out' all_processed_insert_article all_processed_update_by_title)
  have sel: "select_id_by_title t out' = select_id_by_title t out"
    using t by (simp add: out' select_id_insert_article)
  have sub: "link_pairs out \<subseteq> link_pairs out'"
    by (auto simp: out' link_pairs_fold_insert_link)
  show ?thesis using assms(1) t' p' sub
    by (auto simp: absorbed_def sel list_all_iff split: option.splits)
qed

subsection \<open>Merging an input twice\<close>

lemma merged_absorbs:
  assumes "\<forall>r \<in> set done. absorbed input out r"
    and "\<forall>r \<in> set rows. fst r \<in> titles input"
  shows "\<forall>r \<in> set done \<union> set rows. absorbed input (merged now input rows out) r"
  using assms
proof (induction rows arbitrary: out "done")
  case Nil
  then show ?case by simp
next
  case (Cons row rows)
  obtain t p where row: "row = (t, p)" by (cases row)
  with Cons.prems(2) obtain iid where iid: "select_id_by_title t input = Some iid"
    using select_id_Some_iff [of t input] by auto
  from merge_article_eq [OF iid, of now p out] obtain w n where
    w: "merge_article now input (t, p) out = Inr (w, n)" by blast
  have "\<forall>r \<in> set (row # done). absorbed input w r"
    using Cons.prems(1) merge_article_keeps_absorbed [OF _ w] merge_article_absorbs [OF w]
    by (auto simp: row)
  from Cons.IH [OF this] Cons.prems(2) show ?case by (simp add: row w)
qed

lemma merged_noop:
  assumes "\<forall>r \<in> set rows. absorbed input out r"
    and "\<forall>r \<in> set rows. fst r \<in> titles input"
  shows "same_rows (merged now input rows out) out"
  using assms
proof (induction rows arbitrary: out)
  case Nil
  then show ?case by simp
next
  case (Cons row rows)
  obtain t p where row: "row = (t, p)" by (cases row)
  with Cons.prems(2) obtain iid where iid: "select_id_by_title t input = Some iid"
    using select_id_Some_iff [of t input] by auto
  have "absorbed input out (t, p)" using Cons.prems(1) by (simp add: row)
  from merge_article_noop [OF this iid, of now] obtain out' where
    step: "merge_article now input (t, p) out = Inr (out', length (select_links_from iid input))"
    and same: "same_rows out' out"
    by blast
  have "\<forall>r \<in> set rows. absorbed input out' r"
    using Cons.prems(1) absorbed_same_rows [OF same, of input] by simp
  then have "same_rows (merged now input rows out') out'"
    using Cons.prems(2) by (intro Cons.IH) simp_all
  then have "same_rows (merged now input rows out') out"
    using same by (rule same_rows_trans)
  then show ?case by (simp add: row step)
qed

lemma merged_idempotent:
  assumes "\<forall>r \<in> set rows. fst r \<in> titles input"
  shows "same_rows (merged now' input rows (merged now input rows out))
           (merged now input rows out)"
proof -
  have "\<forall>r \<in> set [] \<union> set rows. absorbed input (merged now input rows out) r"
    using assms by (intro merged_absorbs) simp_all
  then show ?thesis using assms by (intro merged_noop) simp_all
qed

lemma merge_articles_merged:
  assumes "\<forall>r \<in> set rows. fst r \<in> titles input"
  shows "\<exists>c' ac' lc'. merge_articles now input rows (c, ac, lc) = ((c', ac', lc'), None)
           \<and> working c' = merged now input rows (working c)"
  using assms
proof (induction rows arbitrary: c ac lc)
  case Nil
  then show ?case by simp
next
  case (Cons row rows)
  obtain t p where row: "row = (t, p)" by (cases row)
  with Cons.prems obtain iid where iid: "select_id_by_title t input = Some iid"
    using select_id_Some_iff [of t input] by auto
  from merge_article_eq [OF iid, of now p "working c"] obtain w n where
    w: "merge_article now input (t, p) (working c) = Inr (w, n)" by blast
  let ?c1 = "c\<lparr>working := w\<rparr>"
  let ?c2 = "if Suc ac mod 1000 = 0 then commit ?c1 else ?c1"
  have wc2: "working ?c2 = w" by (simp add: commit_def)
  from Cons.IH [of ?c2 "Suc ac" "lc + n"] Cons.prems
  obtain c' ac' lc' where
    "merge_articles now input rows (?c2, Suc ac, lc + n) = ((c', ac', lc'), None)"
    "working c' = merged now input rows (working ?c2)"
    by auto
  then show ?case unfolding wc2 by (simp add: row w Let_def)
qed

lemma select_articles_titles: "\<forall>r \<in> set (select_articles input). fst r \<in> titles input"
  by (auto simp: select_articles_def titles_def)

lemma merge_database_merged:
  "fs input_db = Database input \<Longrightarrow>
   merge_database fs now input_db out
     = (Inr True, merged now input (select_articles input) out)"
  using merge_articles_merged [OF select_articles_titles, of now input "connect out" 0 0]
  by (auto simp: merge_database_def commit_def close_def connect_def)

lemma merge_database_not_Database:
  "(\<forall>input. fs input_db \<noteq> Database input) \<Longrightarrow>
   merge_database fs now input_db out
     = (if fs input_db = Unopenable then Inl OperationalError else Inr False, out)"
  by (cases "fs input_db") (simp_all add: merge_database_def close_def rollback_def connect_def)

text \<open>
  Claim C5. Merging an input a second time into the output of its first merge changes
  no row: the output has the article rows and the link rows the first merge left, so
  the article count, the processed count and the link count are the same, and the
  second merge returns what the first did. Every write of the second merge is ignored
  on its unique key; the ignored inserts advance only the counters of
  \<^verbatim>\<open>sqlite_sequence\<close>. This holds for every output the first merge starts from, the
  fresh one included.
\<close>

theorem merge_database_idempotent:
  "articles (snd (merge_database fs now' input_db (snd (merge_database fs now input_db out))))
     = articles (snd (merge_database fs now input_db out))
   \<and> links (snd (merge_database fs now' input_db (snd (merge_database fs now input_db out))))
     = links (snd (merge_database fs now input_db out))
   \<and> get_stats (snd (merge_database fs now' input_db (snd (merge_database fs now input_db out))))
     = get_stats (snd (merge_database fs now input_db out))
   \<and> fst (merge_database fs now' input_db (snd (merge_database fs now input_db out)))
     = fst (merge_database fs now input_db out)"
proof (cases "\<exists>input. fs input_db = Database input")
  case True
  then obtain input where i: "fs input_db = Database input" by blast
  let ?o1 = "merged now input (select_articles input) out"
  have "same_rows (merged now' input (select_articles input) ?o1) ?o1"
    using select_articles_titles by (rule merged_idempotent)
  then show ?thesis
    using get_stats_same_rows [of "merged now' input (select_articles input) ?o1" ?o1]
    by (simp add: merge_database_merged [of fs input_db input, OF i] same_rows_def)
next
  case False
  then show ?thesis by (simp add: merge_database_not_Database)
qed

text \<open>The shard \<^verbatim>\<open>x.db\<close> is merged into a fresh output at time 50 and again at time
  60: the second merge leaves the two article rows and the two link rows, and moves
  both counters from 2 to 4.\<close>

theorem merge_database_idempotent_witness:
  "merge_database shard_fs 50 ''x.db'' (init_database None) = (Inr True, merged_x)
   \<and> merge_database shard_fs 60 ''x.db'' merged_x
       = (Inr True, merged_x\<lparr>articles_seq := 4, links_seq := 4\<rparr>)
   \<and> get_stats merged_x = \<lparr>total_articles = 2, processed_articles = 1, total_links = 2\<rparr>
   \<and> get_stats (merged_x\<lparr>articles_seq := 4, links_seq := 4\<rparr>)
       = \<lparr>total_articles = 2, processed_articles = 1, total_links = 2\<rparr>"
proof -
  note ev = merge_database_def shard_fs_def shard_x_def merged_x_def init_database_def
    empty_store_def select_articles_def merge_article.simps connect_def commit_def
    close_def insert_or_ignore_article_def select_id_by_title_def select_links_from_def
    insert_or_ignore_link_def update_processed_by_title_def next_rowid_def Let_def
  have m: "merge_database shard_fs 50 ''x.db'' (init_database None) = (Inr True, merged_x)"
    by (simp add: ev)
  have m2: "merge_database shard_fs 60 ''x.db'' merged_x
       = (Inr True, merged_x\<lparr>articles_seq := 4, links_seq := 4\<rparr>)"
    by (simp add: ev)
  show ?thesis
    using merge_database_idempotent [of shard_fs 60 "''x.db''" 50 "init_database None"]
    unfolding m snd_conv fst_conv m2
    by (simp add: m m2 get_stats_def merged_x_def)
qed

subsection \<open>The constraints of the schema are kept\<close>

lemma valid_empty_store: "valid_store empty_store"
  by (simp add: valid_store_def empty_store_def)

lemma valid_insert_article:
  assumes "valid_store s"
  shows "valid_store (insert_or_ignore_article now t p s)"
proof (cases "t \<in> set (map title (articles s))")
  case True
  then show ?thesis using assms by (simp add: insert_article_present valid_store_def)
next
  case False
  let ?i = "next_rowid (articles_seq s) (map article_id (articles s))"
  have gt: "\<forall>x \<in> set (map article_id (articles s)). x < ?i"
    using next_rowid_gt by blast
  have arts: "articles (insert_or_ignore_article now t p s)
      = articles s @ [\<lparr>article_id = ?i, title = t, processed = p, last_updated = now\<rparr>]"
    using False by (simp add: insert_or_ignore_article_def Let_def)
  have "sorted_wrt (<) (map article_id (articles s) @ [?i])"
    using assms gt by (simp add: valid_store_def sorted_wrt_append)
  moreover have "distinct (map title (articles s) @ [t])"
    using assms False by (simp add: valid_store_def)
  ultimately show ?thesis using assms
    by (auto simp: valid_store_def arts)
qed

lemma valid_update_by_title:
  "valid_store s \<Longrightarrow> valid_store (update_processed_by_title t s)"
  unfolding valid_store_def update_processed_by_title_def
  by (simp add: map_title_update map_article_id_update del: map_map)

lemma valid_update_by_id:
  "valid_store s \<Longrightarrow> valid_store (update_processed_by_id aid s)"
  unfolding valid_store_def update_processed_by_id_def
  by (simp add: map_title_update map_article_id_update del: map_map)

lemma valid_insert_link:
  assumes "valid_store s" and "aid \<in> set (map article_id (articles s))"
  shows "valid_store (insert_or_ignore_link aid l s)"
proof (cases "\<exists>x \<in> set (links s). from_article_id x = aid \<and> to_article_title x = l")
  case True
  then have "insert_or_ignore_link aid l s
      = s\<lparr>links_seq := next_rowid (links_seq s) (map link_id (links s))\<rparr>"
    by (simp add: insert_or_ignore_link_def Let_def)
  then show ?thesis using assms by (simp add: valid_store_def)
next
  case False
  let ?i = "next_rowid (links_seq s) (map link_id (links s))"
  have gt: "\<forall>x \<in> set (map link_id (links s)). x < ?i"
    using next_rowid_gt by blast
  have lks: "links (insert_or_ignore_link aid l s)
      = links s @ [\<lparr>link_id = ?i, from_article_id = aid, to_article_title = l\<rparr>]"
    using False by (simp add: insert_or_ignore_link_def Let_def)
  have "sorted_wrt (<) (map link_id (links s) @ [?i])"
    using assms gt by (simp add: valid_store_def sorted_wrt_append)
  moreover have "(aid, l) \<notin> set (map (\<lambda>l. (from_article_id l, to_article_title l)) (links s))"
    using False by auto
  ultimately show ?thesis using assms
    by (simp add: valid_store_def lks)
qed

lemma valid_fold_insert_link:
  "valid_store s \<Longrightarrow> aid \<in> set (map article_id (articles s)) \<Longrightarrow>
   valid_store (fold (insert_or_ignore_link aid) ls s)"
proof (induction ls arbitrary: s)
  case Nil
  then show ?case by simp
next
  case (Cons l ls)
  have "valid_store (insert_or_ignore_link aid l s)"
    using Cons.prems by (rule valid_insert_link)
  moreover have "aid \<in> set (map article_id (articles (insert_or_ignore_link aid l s)))"
    using Cons.prems(2) by simp
  ultimately show ?case using Cons.IH by simp
qed

lemma select_id_in_ids:
  "select_id_by_title t s = Some i \<Longrightarrow> i \<in> set (map article_id (articles s))"
  by (auto simp: select_id_by_title_def find_Some_iff)

lemma valid_merge_article:
  assumes "valid_store out" and "merge_article now input (t, p) out = Inr (out', n)"
  shows "valid_store out'"
proof -
  from assms(2) obtain iid where iid: "select_id_by_title t input = Some iid"
    using merge_article_Inr_input by blast
  let ?o1 = "insert_or_ignore_article now t p out"
  let ?o2 = "if p then update_processed_by_title t ?o1 else ?o1"
  from merge_article_eq [OF iid, of now p out] obtain oid where
    oid: "select_id_by_title t ?o1 = Some oid" and
    eq: "merge_article now input (t, p) out =
           Inr (fold (insert_or_ignore_link oid) (select_links_from iid input) ?o2,
                length (select_links_from iid input))"
    by blast
  from eq assms(2) have
    out': "out' = fold (insert_or_ignore_link oid) (select_links_from iid input) ?o2"
    by simp
  have v2: "valid_store ?o2"
    using assms(1) by (simp add: valid_insert_article valid_update_by_title)
  have "select_id_by_title t ?o2 = Some oid" using oid by (cases p) simp_all
  then have "oid \<in> set (map article_id (articles ?o2))" by (rule select_id_in_ids)
  with v2 show ?thesis unfolding out' by (rule valid_fold_insert_link)
qed

lemma valid_merged: "valid_store out \<Longrightarrow> valid_store (merged now input rows out)"
proof (induction rows arbitrary: out)
  case Nil
  then show ?case by simp
next
  case (Cons row rows)
  obtain t p where row: "row = (t, p)" by (cases row)
  show ?case
  proof (cases "merge_article now input (t, p) out")
    case (Inl e)
    then show ?thesis using Cons.prems by (simp add: row)
  next
    case (Inr x)
    obtain w n where x: "x = (w, n)" by (cases x)
    have "valid_store w" using Cons.prems Inr unfolding x by (rule valid_merge_article)
    then show ?thesis using Cons.IH Inr by (simp add: row x)
  qed
qed

lemma valid_merge_database:
  "valid_store out \<Longrightarrow> valid_store (snd (merge_database fs now input_db out))"
proof (cases "\<exists>input. fs input_db = Database input")
  case True
  assume "valid_store out"
  with True show ?thesis by (auto simp: merge_database_merged valid_merged)
next
  case False
  assume "valid_store out"
  with False show ?thesis by (simp add: merge_database_not_Database)
qed

lemma valid_merge_multiple:
  "valid_store out \<Longrightarrow> valid_store (snd (merge_loop fs now paths (k, out)))"
proof (induction paths arbitrary: k out)
  case Nil
  then show ?case by simp
next
  case (Cons p ps)
  obtain r out' where m: "merge_database fs now p out = (r, out')"
    by (cases "merge_database fs now p out")
  have v: "valid_store out'" using valid_merge_database [OF Cons.prems, of fs now p] m by simp
  show ?case
  proof (cases r)
    case (Inl e)
    then show ?thesis using v by (simp add: m)
  next
    case (Inr ok)
    then show ?thesis using Cons.IH [OF v] by (simp add: m)
  qed
qed

subsection \<open>A missing input\<close>

lemma merge_database_missing:
  "fs input_db = Missing \<Longrightarrow> merge_database fs now input_db out = (Inr False, out)"
  by (simp add: merge_database_def)

lemma merge_multiple_append:
  "merge_loop fs now (ps @ qs) (k, out)
     = (case merge_loop fs now ps (k, out) of
          (Inl e, out') \<Rightarrow> (Inl e, out')
        | (Inr k', out') \<Rightarrow> merge_loop fs now qs (k', out'))"
proof (induction ps arbitrary: k out)
  case Nil
  then show ?case by simp
next
  case (Cons p ps)
  obtain r out' where m: "merge_database fs now p out = (r, out')"
    by (cases "merge_database fs now p out")
  show ?case
  proof (cases r)
    case (Inl e)
    then show ?thesis by (simp add: m)
  next
    case (Inr ok)
    then show ?thesis using Cons.IH by (simp add: m)
  qed
qed

lemma merge_database_ok_iff:
  "fst (merge_database fs now input_db out) = Inr ok \<Longrightarrow> ok = is_database fs input_db"
  by (cases "fs input_db")
     (simp_all add: is_database_def merge_database_merged merge_database_not_Database)

lemma merge_multiple_success_count:
  "fst (merge_loop fs now paths (k, out)) = Inr k' \<Longrightarrow>
   k' = k + length (filter (is_database fs) paths)"
proof (induction paths arbitrary: k out)
  case Nil
  then show ?case by simp
next
  case (Cons p ps)
  obtain r out' where m: "merge_database fs now p out = (r, out')"
    by (cases "merge_database fs now p out")
  show ?case
  proof (cases r)
    case (Inl e)
    then show ?thesis using Cons.prems by (simp add: m)
  next
    case (Inr ok)
    have ok: "ok = is_database fs p"
      using merge_database_ok_iff [of fs now p out ok] m Inr by simp
    have "fst (merge_loop fs now ps (if ok then Suc k else k, out')) = Inr k'"
      using Cons.prems by (simp add: m Inr)
    from Cons.IH [OF this] show ?thesis using ok by simp
  qed
qed

text \<open>
  Claim C9. An input path where no file is makes \<^verbatim>\<open>merge_database\<close> return
  \<^verbatim>\<open>False\<close> with the output untouched; \<^verbatim>\<open>merge_multiple_databases\<close> then goes
  on, and does what it would do without that path: it leaves the same store and
  reports the same \<^verbatim>\<open>success_count\<close>, so of the report
  \<^verbatim>\<open>success_count/len(input_databases)\<close> the number of inputs that are not counted
  as merged is one more. An output that meets its schema before the merge meets it
  after.
\<close>

theorem merge_missing_input_skipped:
  assumes "fs p = Missing"
  shows "merge_database fs now p out = (Inr False, out)
       \<and> merge_multiple_databases fs now (ps @ p # qs) out
           = merge_multiple_databases fs now (ps @ qs) out
       \<and> (\<forall>k. fst (merge_multiple_databases fs now (ps @ p # qs) out) = Inr k \<longrightarrow>
              length (ps @ p # qs) - k = Suc (length (ps @ qs) - k))
       \<and> (valid_store out \<longrightarrow>
            valid_store (snd (merge_multiple_databases fs now (ps @ p # qs) out)))"
proof -
  have m: "merge_database fs now p out' = (Inr False, out')" for out'
    using assms by (rule merge_database_missing)
  have skip: "merge_loop fs now (ps @ p # qs) (0, out)
           = merge_loop fs now (ps @ qs) (0, out)"
    by (simp add: merge_multiple_append [of fs now ps "p # qs"]
          merge_multiple_append [of fs now ps qs] m split: prod.splits sum.splits)
  have cnt: "length (ps @ p # qs) - k = Suc (length (ps @ qs) - k)"
    if "fst (merge_loop fs now (ps @ p # qs) (0, out)) = Inr k" for k
  proof -
    have "k = 0 + length (filter (is_database fs) (ps @ qs))"
      using that unfolding skip by (rule merge_multiple_success_count)
    moreover have "length (filter (is_database fs) (ps @ qs)) \<le> length (ps @ qs)"
      by (rule length_filter_le)
    ultimately show ?thesis by simp
  qed
  from m skip cnt show ?thesis
    by (simp add: merge_multiple_databases_def valid_merge_multiple)
qed

text \<open>After the missing \<^verbatim>\<open>gone.db\<close> the shard \<^verbatim>\<open>x.db\<close> is merged: one input of two is
  counted. A path that cannot be opened is no such case: it ends the run.\<close>

theorem merge_missing_input_skipped_witness:
  "shard_fs ''gone.db'' = Missing
   \<and> merge_multiple_databases shard_fs 50 [''gone.db'', ''x.db''] (init_database None)
       = (Inr 1, merged_x)
   \<and> merge_multiple_databases shard_fs 50 [''x.db''] (init_database None)
       = (Inr 1, merged_x)
   \<and> length [''gone.db'', ''x.db''] - (1::nat) = Suc (length [''x.db''] - 1)
   \<and> valid_store (init_database None)
   \<and> valid_store merged_x"
proof -
  have m: "merge_database shard_fs 50 ''x.db'' (init_database None) = (Inr True, merged_x)"
    by (simp add: merge_database_def shard_fs_def shard_x_def merged_x_def init_database_def
        empty_store_def select_articles_def merge_article.simps connect_def commit_def
        close_def insert_or_ignore_article_def select_id_by_title_def select_links_from_def
        insert_or_ignore_link_def update_processed_by_title_def next_rowid_def Let_def)
  have g: "shard_fs ''gone.db'' = Missing" by (simp add: shard_fs_def)
  have v: "valid_store (init_database None)"
    by (simp add: init_database_def valid_empty_store)
  have vm: "valid_store merged_x" by (simp add: valid_store_def merged_x_def)
  have gm: "merge_database shard_fs 50 ''gone.db'' (init_database None)
              = (Inr False, init_database None)"
    by (simp add: merge_database_def shard_fs_def)
  show ?thesis
    using merge_missing_input_skipped
            [of shard_fs "''gone.db''" 50 "init_database None" "[]" "[''x.db'']"]
    by (simp add: merge_multiple_databases_def m gm g v vm)
qed

lemma merge_unopenable_input_raises:
  "fs p = Unopenable \<Longrightarrow>
   merge_multiple_databases fs now (p # qs) out = (Inl OperationalError, out)"
  by (simp add: merge_multiple_databases_def merge_database_def)

subsection \<open>The flag and the links of a title after a merge\<close>

lemma lookup_title: "lookup_article t s = Some a \<Longrightarrow> title a = t \<and> a \<in> set (articles s)"
  by (auto simp: lookup_article_def find_Some_iff)

lemma lookup_None_iff: "lookup_article t s = None \<longleftrightarrow> t \<notin> titles s"
  by (auto simp: lookup_article_def find_None_iff titles_def)

lemma processed_of_None_iff: "processed_of s t = None \<longleftrightarrow> t \<notin> titles s"
  by (simp add: processed_of_def lookup_None_iff)

lemma lookup_insert_article:
  "lookup_article t (insert_or_ignore_article now t' p s) =
     (if t \<in> titles s then lookup_article t s
      else if t = t' then
        Some \<lparr>article_id = next_rowid (articles_seq s) (map article_id (articles s)),
              title = t', processed = p, last_updated = now\<rparr>
      else None)"
proof (cases "t' \<in> titles s")
  case True
  then have "articles (insert_or_ignore_article now t' p s) = articles s"
    by (simp add: insert_article_present_rows titles_def)
  then have "lookup_article t (insert_or_ignore_article now t' p s) = lookup_article t s"
    by (simp add: lookup_article_def)
  then show ?thesis using True lookup_None_iff [of t s] by auto
next
  case False
  then have arts: "articles (insert_or_ignore_article now t' p s) = articles s @
      [\<lparr>article_id = next_rowid (articles_seq s) (map article_id (articles s)),
        title = t', processed = p, last_updated = now\<rparr>]"
    by (simp add: insert_or_ignore_article_def Let_def titles_def)
  show ?thesis
  proof (cases "t \<in> titles s")
    case True
    then obtain a where "find (\<lambda>a. title a = t) (articles s) = Some a"
      using lookup_None_iff [of t s] by (auto simp: lookup_article_def)
    then show ?thesis using True by (simp add: lookup_article_def arts find_append_cases)
  next
    case False
    then have "find (\<lambda>a. title a = t) (articles s) = None"
      using lookup_None_iff [of t s] by (simp add: lookup_article_def)
    then show ?thesis using False by (simp add: lookup_article_def arts find_append_cases)
  qed
qed

lemma processed_of_insert_article:
  "processed_of (insert_or_ignore_article now t' p s) t =
     (if t \<in> titles s then processed_of s t else if t = t' then Some p else None)"
  by (simp add: processed_of_def lookup_insert_article)

lemma processed_of_update_by_title:
  "processed_of (update_processed_by_title t' s) t
     = map_option (\<lambda>b. b \<or> t = t') (processed_of s t)"
proof -
  let ?upd = "\<lambda>a. if title a = t' \<and> \<not> processed a then a\<lparr>processed := True\<rparr> else a"
  have f: "lookup_article t (update_processed_by_title t' s) = map_option ?upd (lookup_article t s)"
    unfolding lookup_article_def update_processed_by_title_def
    using find_map_preserve [of "\<lambda>a. title a = t" ?upd "articles s"] by simp
  show ?thesis
  proof (cases "lookup_article t s")
    case None
    then show ?thesis by (simp add: processed_of_def f)
  next
    case (Some a)
    then have "title a = t" by (simp add: lookup_title)
    then show ?thesis using Some by (auto simp: processed_of_def f)
  qed
qed

lemma processed_of_fold_insert_link [simp]:
  "processed_of (fold (insert_or_ignore_link aid) ls s) t = processed_of s t"
  by (simp add: processed_of_def)

lemma processed_of_merge_article:
  assumes "merge_article now input (t', p') out = Inr (out', n)"
  shows "processed_of out' t =
           (if t = t' then Some (p' \<or> processed_of out t = Some True) else processed_of out t)"
proof -
  from assms obtain iid where iid: "select_id_by_title t' input = Some iid"
    using merge_article_Inr_input by blast
  let ?o1 = "insert_or_ignore_article now t' p' out"
  let ?o2 = "if p' then update_processed_by_title t' ?o1 else ?o1"
  from merge_article_eq [OF iid, of now p' out] obtain oid where
    eq: "merge_article now input (t', p') out =
           Inr (fold (insert_or_ignore_link oid) (select_links_from iid input) ?o2,
                length (select_links_from iid input))"
    by blast
  from eq assms have
    out': "out' = fold (insert_or_ignore_link oid) (select_links_from iid input) ?o2"
    by simp
  have none: "t \<notin> titles out \<Longrightarrow> processed_of out t = None"
    by (simp add: processed_of_None_iff)
  have some: "t \<in> titles out \<Longrightarrow> \<exists>b. processed_of out t = Some b"
    using processed_of_None_iff [of out t] by auto
  show ?thesis
  proof (cases p')
    case True
    then have "processed_of out' t = map_option (\<lambda>b. b \<or> t = t') (processed_of ?o1 t)"
      by (simp add: out' processed_of_update_by_title)
    then show ?thesis using True none some
      by (auto simp: processed_of_insert_article)
  next
    case False
    then have "processed_of out' t = processed_of ?o1 t" by (simp add: out')
    then show ?thesis using False none some
      by (auto simp: processed_of_insert_article)
  qed
qed

lemma select_links_from_set:
  "set (select_links_from aid s) = {l. (aid, l) \<in> link_pairs s}"
  by (auto simp: select_links_from_def link_pairs_def image_iff)

lemma links_of_alt:
  "links_of s t = (case select_id_by_title t s of None \<Rightarrow> {}
                   | Some aid \<Rightarrow> {l. (aid, l) \<in> link_pairs s})"
  by (simp add: links_of_def select_links_from_set split: option.splits)

lemma valid_distinct_ids: "valid_store s \<Longrightarrow> distinct (map article_id (articles s))"
  by (simp add: valid_store_def strict_sorted_iff)

lemma select_id_find:
  "select_id_by_title t s = Some i \<Longrightarrow>
   \<exists>a \<in> set (articles s). title a = t \<and> article_id a = i"
  by (auto simp: select_id_by_title_def find_Some_iff)

lemma select_id_inj:
  assumes "valid_store s" "select_id_by_title t s = Some i" "select_id_by_title t' s = Some i"
  shows "t = t'"
proof -
  from assms(2) obtain a where a: "a \<in> set (articles s)" "title a = t" "article_id a = i"
    using select_id_find by blast
  from assms(3) obtain a' where a': "a' \<in> set (articles s)" "title a' = t'" "article_id a' = i"
    using select_id_find by blast
  have "inj_on article_id (set (articles s))"
    using valid_distinct_ids [OF assms(1)] by (simp add: distinct_map)
  then have "a = a'" using a a' by (auto dest: inj_onD)
  then show ?thesis using a a' by simp
qed

lemma select_id_insert_new:
  "t \<notin> titles s \<Longrightarrow>
   select_id_by_title t (insert_or_ignore_article now t p s)
     = Some (next_rowid (articles_seq s) (map article_id (articles s)))"
  using lookup_insert_article [of t now t p s] by (simp add: select_id_lookup)

lemma no_links_of_new_id:
  assumes "valid_store s"
  shows "(next_rowid (articles_seq s) (map article_id (articles s)), l) \<notin> link_pairs s"
proof
  let ?i = "next_rowid (articles_seq s) (map article_id (articles s))"
  assume "(?i, l) \<in> link_pairs s"
  then have "?i \<in> set (map from_article_id (links s))"
    by (auto simp: link_pairs_def image_iff)
  then have "?i \<in> set (map article_id (articles s))"
    using assms by (auto simp: valid_store_def)
  then have "?i < ?i" by (rule next_rowid_gt)
  then show False by simp
qed

lemma links_of_merge_article:
  assumes "valid_store out" and "merge_article now input (t', p') out = Inr (out', n)"
  shows "links_of out' t =
           (if t = t' then links_of out t \<union> links_of input t else links_of out t)"
proof -
  from assms(2) obtain iid where iid: "select_id_by_title t' input = Some iid"
    using merge_article_Inr_input by blast
  let ?o1 = "insert_or_ignore_article now t' p' out"
  let ?o2 = "if p' then update_processed_by_title t' ?o1 else ?o1"
  let ?lnks = "select_links_from iid input"
  from merge_article_eq [OF iid, of now p' out] obtain oid where
    oid: "select_id_by_title t' ?o1 = Some oid" and
    eq: "merge_article now input (t', p') out =
           Inr (fold (insert_or_ignore_link oid) ?lnks ?o2, length ?lnks)"
    by blast
  from eq assms(2) have out': "out' = fold (insert_or_ignore_link oid) ?lnks ?o2"
    by simp
  have pairs: "link_pairs out' = link_pairs out \<union> {oid} \<times> set ?lnks"
    by (cases p') (simp_all add: out' link_pairs_fold_insert_link)
  have sel: "select_id_by_title u out' = select_id_by_title u ?o1" for u
    by (cases p') (simp_all add: out')
  have inp: "links_of input t' = set ?lnks"
    by (simp add: links_of_def iid)
  have v1: "valid_store ?o1" using assms(1) by (rule valid_insert_article)
  show ?thesis
  proof (cases "t = t'")
    case True
    show ?thesis
    proof (cases "t' \<in> titles out")
      case in_out: True
      then have "select_id_by_title t' out = Some oid"
        using oid by (simp add: select_id_insert_article)
      then show ?thesis using True oid inp
        by (auto simp: links_of_alt sel pairs)
    next
      case False
      then have new: "oid = next_rowid (articles_seq out) (map article_id (articles out))"
        using oid by (simp add: select_id_insert_new)
      have "select_id_by_title t' out = None"
        using False select_id_Some_iff [of t' out] by (cases "select_id_by_title t' out") auto
      then show ?thesis using True oid inp no_links_of_new_id [OF assms(1)]
        by (auto simp: links_of_alt sel pairs new)
    qed
  next
    case False
    show ?thesis
    proof (cases "t \<in> titles out")
      case True
      then obtain i where i: "select_id_by_title t out = Some i"
        using select_id_Some_iff by blast
      then have i1: "select_id_by_title t ?o1 = Some i"
        using True by (simp add: select_id_insert_article)
      have "i \<noteq> oid" using select_id_inj [OF v1 i1] oid False by auto
      then show ?thesis using False i i1
        by (auto simp: links_of_alt sel pairs)
    next
      case not_in: False
      then have "t \<notin> titles ?o1" using False by (simp add: titles_insert_article)
      then have "select_id_by_title t ?o1 = None"
        using select_id_Some_iff [of t ?o1] by (cases "select_id_by_title t ?o1") auto
      moreover have "select_id_by_title t out = None"
        using not_in select_id_Some_iff [of t out] by (cases "select_id_by_title t out") auto
      ultimately show ?thesis using False by (simp add: links_of_alt sel)
    qed
  qed
qed

subsection \<open>The flag and the links of a title after the merge of an input\<close>

lemma merged_processed_of:
  assumes "\<forall>r \<in> set rows. fst r \<in> titles input"
  shows "processed_of (merged now input rows out) t =
           (if t \<in> fst ` set rows
            then Some ((t, True) \<in> set rows \<or> processed_of out t = Some True)
            else processed_of out t)"
  using assms
proof (induction rows arbitrary: out)
  case Nil
  then show ?case by simp
next
  case (Cons row rows)
  obtain t' p' where row: "row = (t', p')" by (cases row)
  with Cons.prems obtain iid where iid: "select_id_by_title t' input = Some iid"
    using select_id_Some_iff [of t' input] by auto
  from merge_article_eq [OF iid, of now p' out] obtain w n where
    w: "merge_article now input (t', p') out = Inr (w, n)" by blast
  have step: "processed_of w t =
      (if t = t' then Some (p' \<or> processed_of out t = Some True) else processed_of out t)"
    using w by (rule processed_of_merge_article)
  have ih: "processed_of (merged now input rows w) t =
           (if t \<in> fst ` set rows
            then Some ((t, True) \<in> set rows \<or> processed_of w t = Some True)
            else processed_of w t)"
    using Cons.IH [of w] Cons.prems by simp
  have m: "merged now input (row # rows) out = merged now input rows w"
    by (simp add: row w)
  have mem: "u \<in> fst ` set rows" if "(u, b) \<in> set rows" for u b
    using that by force
  show ?case unfolding m ih step using mem by (cases p') (auto simp: row)
qed

lemma merged_links_of:
  assumes "valid_store out" and "\<forall>r \<in> set rows. fst r \<in> titles input"
  shows "links_of (merged now input rows out) t =
           (if t \<in> fst ` set rows then links_of out t \<union> links_of input t
            else links_of out t)"
  using assms
proof (induction rows arbitrary: out)
  case Nil
  then show ?case by simp
next
  case (Cons row rows)
  obtain t' p' where row: "row = (t', p')" by (cases row)
  with Cons.prems obtain iid where iid: "select_id_by_title t' input = Some iid"
    using select_id_Some_iff [of t' input] by auto
  from merge_article_eq [OF iid, of now p' out] obtain w n where
    w: "merge_article now input (t', p') out = Inr (w, n)" by blast
  have vw: "valid_store w" using Cons.prems(1) w by (rule valid_merge_article)
  have step: "links_of w t =
      (if t = t' then links_of out t \<union> links_of input t else links_of out t)"
    using Cons.prems(1) w by (rule links_of_merge_article)
  have ih: "links_of (merged now input rows w) t =
           (if t \<in> fst ` set rows then links_of w t \<union> links_of input t else links_of w t)"
    using Cons.IH [OF vw] Cons.prems(2) by simp
  have m: "merged now input (row # rows) out = merged now input rows w"
    by (simp add: row w)
  show ?case unfolding m ih step by (auto simp: row)
qed

lemma fst_select_articles: "fst ` set (select_articles input) = titles input"
  by (auto simp: select_articles_def titles_def image_iff)

lemma processed_of_in_select_articles:
  "processed_of input t = Some b \<Longrightarrow> (t, b) \<in> set (select_articles input)"
proof -
  assume "processed_of input t = Some b"
  then obtain a where "lookup_article t input = Some a" "processed a = b"
    by (auto simp: processed_of_def)
  then have "a \<in> set (articles input)" "title a = t" "processed a = b"
    using lookup_title by auto
  then show ?thesis by (auto simp: select_articles_def image_iff)
qed

lemma merge_database_processed_of:
  assumes "fs input_db = Database input"
  shows "processed_of (snd (merge_database fs now input_db out)) t =
           (if t \<in> titles input
            then Some ((t, True) \<in> set (select_articles input) \<or> processed_of out t = Some True)
            else processed_of out t)"
  using merged_processed_of [OF select_articles_titles, where now = now and out = out and t = t]
    merge_database_merged [of fs input_db input now out, OF assms]
  by (simp add: fst_select_articles)

lemma merge_database_links_of:
  assumes "fs input_db = Database input" and "valid_store out"
  shows "links_of (snd (merge_database fs now input_db out)) t =
           (if t \<in> titles input then links_of out t \<union> links_of input t else links_of out t)"
  using merged_links_of [OF assms(2) select_articles_titles, where now = now and t = t]
    merge_database_merged [of fs input_db input now out, OF assms(1)]
  by (simp add: fst_select_articles)

lemma merge_database_keeps_processed:
  "processed_of out u = Some True \<Longrightarrow>
   processed_of (snd (merge_database fs now input_db out)) u = Some True"
proof (cases "\<exists>input. fs input_db = Database input")
  case True
  assume "processed_of out u = Some True"
  with True show ?thesis by (auto simp: merge_database_processed_of)
next
  case False
  assume "processed_of out u = Some True"
  with False show ?thesis by (simp add: merge_database_not_Database)
qed

lemma merge_multiple_two:
  assumes "fs p = Database P" and "fs q = Database Q"
  shows "merge_loop fs now [p, q] (k, out)
     = (Inr (Suc (Suc k)), snd (merge_database fs now q (snd (merge_database fs now p out))))"
  by (simp add: merge_database_merged [of fs p P, OF assms(1)]
        merge_database_merged [of fs q Q, OF assms(2)])

text \<open>
  Claim C4. Shard \<open>X\<close> has the title with \<^verbatim>\<open>processed = FALSE\<close>, shard \<open>Y\<close> has it
  with \<^verbatim>\<open>processed = TRUE\<close>. After the merge of both into an output that meets its
  schema, in either order, the output has the title processed, and the links that
  leave it are those the output had, those of \<open>X\<close> and those of \<open>Y\<close> (for a fresh
  output, the union of both shards' links). A flag that is true in the output stays
  true through the merge of any input. Both inputs are counted as merged.
\<close>

theorem merge_or_semantics:
  assumes "fs px = Database X" and "fs py = Database Y" and "valid_store out"
    and "processed_of X t = Some False" and "processed_of Y t = Some True"
  shows "processed_of (snd (merge_multiple_databases fs now [px, py] out)) t = Some True
       \<and> processed_of (snd (merge_multiple_databases fs now [py, px] out)) t = Some True
       \<and> links_of (snd (merge_multiple_databases fs now [px, py] out)) t
           = links_of out t \<union> links_of X t \<union> links_of Y t
       \<and> links_of (snd (merge_multiple_databases fs now [py, px] out)) t
           = links_of out t \<union> links_of X t \<union> links_of Y t
       \<and> (processed_of out u = Some True \<longrightarrow>
            processed_of (snd (merge_database fs now q out)) u = Some True)
       \<and> fst (merge_multiple_databases fs now [px, py] out) = Inr 2
       \<and> fst (merge_multiple_databases fs now [py, px] out) = Inr 2"
proof -
  have tx: "t \<in> titles X" using assms(4) processed_of_None_iff [of X t] by auto
  have ty: "t \<in> titles Y" using assms(5) processed_of_None_iff [of Y t] by auto
  have yt: "(t, True) \<in> set (select_articles Y)"
    using assms(5) by (rule processed_of_in_select_articles)
  let ?ox = "snd (merge_database fs now px out)"
  let ?oy = "snd (merge_database fs now py out)"
  have vx: "valid_store ?ox" using assms(3) by (rule valid_merge_database)
  have vy: "valid_store ?oy" using assms(3) by (rule valid_merge_database)
  have p1: "processed_of (snd (merge_database fs now py ?ox)) t = Some True"
    using ty yt by (simp add: merge_database_processed_of [of fs py Y, OF assms(2)])
  have "processed_of ?oy t = Some True"
    using ty yt by (simp add: merge_database_processed_of [of fs py Y, OF assms(2)])
  then have p2: "processed_of (snd (merge_database fs now px ?oy)) t = Some True"
    by (rule merge_database_keeps_processed)
  have l1: "links_of (snd (merge_database fs now py ?ox)) t
              = links_of out t \<union> links_of X t \<union> links_of Y t"
    using tx ty
    by (simp add: merge_database_links_of [of fs py Y, OF assms(2) vx]
        merge_database_links_of [of fs px X, OF assms(1) assms(3)])
  have l2: "links_of (snd (merge_database fs now px ?oy)) t
              = links_of out t \<union> links_of X t \<union> links_of Y t"
    using tx ty
    by (auto simp: merge_database_links_of [of fs px X, OF assms(1) vy]
        merge_database_links_of [of fs py Y, OF assms(2) assms(3)])
  from p1 p2 l1 l2 show ?thesis
    unfolding merge_multiple_databases_def
      merge_multiple_two [of fs px X py Y, OF assms(1) assms(2)]
      merge_multiple_two [of fs py Y px X, OF assms(2) assms(1)]
    by (simp add: merge_database_keeps_processed)
qed

theorem merge_or_semantics_witness:
  "valid_store (init_database None)
   \<and> processed_of shard_x ''Apple'' = Some False
   \<and> processed_of shard_y ''Apple'' = Some True
   \<and> merge_multiple_databases shard_fs 50 [''x.db'', ''y.db''] (init_database None)
       = (Inr 2, merged_xy)
   \<and> merge_multiple_databases shard_fs 50 [''y.db'', ''x.db''] (init_database None)
       = (Inr 2, merged_yx)
   \<and> processed_of merged_xy ''Apple'' = Some True
   \<and> processed_of merged_yx ''Apple'' = Some True
   \<and> links_of shard_x ''Apple'' = {''Pear''}
   \<and> links_of shard_y ''Apple'' = {''Banana'', ''Pear''}
   \<and> links_of merged_xy ''Apple'' = {''Pear'', ''Banana''}
   \<and> links_of merged_yx ''Apple'' = {''Pear'', ''Banana''}"
proof -
  note ev = merge_database_def shard_fs_def shard_x_def shard_y_def merged_x_def
    init_database_def empty_store_def select_articles_def merge_article.simps connect_def
    commit_def close_def insert_or_ignore_article_def select_id_by_title_def
    select_links_from_def insert_or_ignore_link_def update_processed_by_title_def
    next_rowid_def Let_def
  have fx: "shard_fs ''x.db'' = Database shard_x" by (simp add: shard_fs_def)
  have fy: "shard_fs ''y.db'' = Database shard_y" by (simp add: shard_fs_def)
  have v: "valid_store (init_database None)"
    by (simp add: init_database_def valid_empty_store)
  have px: "processed_of shard_x ''Apple'' = Some False"
    by (simp add: processed_of_def lookup_article_def shard_x_def)
  have py: "processed_of shard_y ''Apple'' = Some True"
    by (simp add: processed_of_def lookup_article_def shard_y_def)
  have mx: "merge_database shard_fs 50 ''x.db'' (init_database None) = (Inr True, merged_x)"
    by (simp add: ev)
  have mxy: "merge_database shard_fs 50 ''y.db'' merged_x = (Inr True, merged_xy)"
    by (simp add: ev merged_xy_def)
  have my: "merge_database shard_fs 50 ''y.db'' (init_database None) = (Inr True,
     \<lparr>articles =
        [\<lparr>article_id = 1, title = ''Cherry'', processed = True, last_updated = 50\<rparr>,
         \<lparr>article_id = 2, title = ''Apple'', processed = True, last_updated = 50\<rparr>],
      links = [\<lparr>link_id = 1, from_article_id = 1, to_article_title = ''Apple''\<rparr>,
               \<lparr>link_id = 2, from_article_id = 2, to_article_title = ''Banana''\<rparr>,
               \<lparr>link_id = 3, from_article_id = 2, to_article_title = ''Pear''\<rparr>],
      articles_seq = 2, links_seq = 3\<rparr>)"
    by (simp add: ev)
  have myx: "merge_loop shard_fs 50 [''y.db'', ''x.db''] (0, init_database None)
       = (Inr 2, merged_yx)"
    unfolding merge_loop.simps my
    by (simp add: ev merged_yx_def)
  have lx: "links_of shard_x ''Apple'' = {''Pear''}"
    by (simp add: links_of_def select_id_by_title_def select_links_from_def shard_x_def)
  have ly: "links_of shard_y ''Apple'' = {''Banana'', ''Pear''}"
    by (simp add: links_of_def select_id_by_title_def select_links_from_def shard_y_def)
  have e: "links_of (init_database None) ''Apple'' = {}"
    by (simp add: links_of_def select_id_by_title_def init_database_def empty_store_def)
  have mxy2: "merge_loop shard_fs 50 [''x.db'', ''y.db''] (0, init_database None)
       = (Inr 2, merged_xy)"
    unfolding merge_loop.simps mx by (simp add: mxy)
  show ?thesis
    using merge_or_semantics [of shard_fs "''x.db''" shard_x "''y.db''" shard_y
            "init_database None" "''Apple''" 50 "''Apple''" "''x.db''", OF fx fy v px py]
    unfolding merge_multiple_databases_def mxy2 myx
    by (simp add: v px py lx ly e insert_commute)
qed

section \<open>The crawl loop\<close>

lemma valid_save:
  assumes "valid_store s"
    and "select_id_by_title t (insert_or_ignore_article now t False s) = Some aid"
  shows "valid_store (update_processed_by_id aid
           (fold (insert_or_ignore_link aid) lnks (insert_or_ignore_article now t False s)))"
proof -
  have "valid_store (insert_or_ignore_article now t False s)"
    using assms(1) by (rule valid_insert_article)
  moreover have "aid \<in> set (map article_id (articles (insert_or_ignore_article now t False s)))"
    using assms(2) by (rule select_id_in_ids)
  ultimately have "valid_store (fold (insert_or_ignore_link aid) lnks
                      (insert_or_ignore_article now t False s))"
    by (rule valid_fold_insert_link)
  then show ?thesis by (rule valid_update_by_id)
qed

lemma processed_of_save:
  assumes "select_id_by_title t (insert_or_ignore_article now t False s) = Some aid"
  shows "processed_of (update_processed_by_id aid
           (fold (insert_or_ignore_link aid) lnks (insert_or_ignore_article now t False s))) t
         = Some True"
proof -
  from assms obtain a where "lookup_article t (insert_or_ignore_article now t False s) = Some a"
    and "article_id a = aid"
    by (auto simp: select_id_lookup)
  then show ?thesis by (simp add: processed_of_def lookup_update_by_id)
qed

lemma backlog_unprocessed:
  assumes "valid_store s" and "processed_of s t = Some True"
  shows "t \<notin> set (backlog s)"
proof
  assume "t \<in> set (backlog s)"
  then obtain a where a: "a \<in> set (articles s)" "title a = t" "\<not> processed a"
    by (auto simp: backlog_def)
  have "distinct (map title (articles s))" using assms(1) by (simp add: valid_store_def)
  then have "find (\<lambda>b. title b = title a) (articles s) = Some a"
    using a(1) by (rule find_distinct_title)
  then have "processed_of s t = Some False"
    using a by (simp add: processed_of_def lookup_article_def)
  with assms(2) show False by simp
qed

lemma get_next_subset_backlog:
  "valid_store s \<Longrightarrow> get_next_unprocessed_articles s n = Inr batch \<Longrightarrow>
   set batch \<subseteq> set (backlog s)"
  by (auto simp: get_next_backlog sql_limit_def split: if_splits dest: in_set_takeD)

text \<open>
  Claim C1, as the code has it. A request that fails is caught in
  \<^verbatim>\<open>get_article_links\<close> and becomes the empty list of links, which
  \<^verbatim>\<open>batch_run\<close> saves like the links of any page: when the save meets no fault, the
  article is marked processed at once, no link row is added, and the article is not
  in the backlog and not returned by \<^verbatim>\<open>get_next_unprocessed_articles\<close> any more,
  whatever the batch size. The store still meets its schema.
\<close>

theorem process_article_fetch_failure:
  assumes "valid_store (db st)"
    and "fetcher e (tick st) article = RequestFailed"
    and "db_fault e (tick st) = NoFault"
  shows "processed_of (db (process_article e article st)) article = Some True
       \<and> links (db (process_article e article st)) = links (db st)
       \<and> article \<notin> set (backlog (db (process_article e article st)))
       \<and> (\<forall>batch. get_next_unprocessed_articles (db (process_article e article st)) n
                     = Inr batch \<longrightarrow> article \<notin> set batch)
       \<and> valid_store (db (process_article e article st))"
proof -
  let ?s1 = "insert_or_ignore_article (tick st) article False (db st)"
  obtain aid where aid: "select_id_by_title article ?s1 = Some aid"
    using select_id_after_insert by blast
  let ?s' = "update_processed_by_id aid (fold (insert_or_ignore_link aid) [] ?s1)"
  have "save_article_links NoFault (tick st) article [] (db st) = Inr ?s'"
    using aid by (rule save_article_links_ok)
  then have step: "db (process_article e article st) = ?s'"
    using assms(2,3) by (simp add: process_article_def get_article_links_def)
  have p: "processed_of ?s' article = Some True"
    using aid by (rule processed_of_save)
  have v: "valid_store ?s'"
    using assms(1) aid by (rule valid_save)
  have nb: "article \<notin> set (backlog ?s')"
    using v p by (rule backlog_unprocessed)
  then have "\<forall>batch. get_next_unprocessed_articles ?s' n = Inr batch \<longrightarrow> article \<notin> set batch"
    using get_next_subset_backlog [OF v, of n] by blast
  with p v nb show ?thesis unfolding step by simp
qed

theorem process_article_fetch_failure_witness:
  "valid_store fruit_store
   \<and> fetcher failing_env 20 ''Apple'' = RequestFailed
   \<and> db_fault failing_env 20 = NoFault
   \<and> processed_of (db (process_article failing_env ''Apple'' \<lparr>tick = 20, db = fruit_store\<rparr>))
        ''Apple'' = Some True
   \<and> links (db (process_article failing_env ''Apple'' \<lparr>tick = 20, db = fruit_store\<rparr>))
        = links fruit_store"
  using process_article_fetch_failure
          [of "\<lparr>tick = 20, db = fruit_store\<rparr>" failing_env "''Apple''" 100]
  by (simp add: failing_env_def valid_store_def fruit_store_def)

text \<open>
  The claim as stated fails. Every request of \<open>failing_env\<close> fails, and \<^verbatim>\<open>Apple\<close> is
  the first title of the backlog: one step marks it processed, the next batch starts
  with \<^verbatim>\<open>Cherry\<close>, and the whole run ends after two steps with nothing left to
  process.
\<close>

theorem fetch_failure_marks_processed_counterexample:
  "get_next_unprocessed_articles fruit_store 100 = Inr [''Apple'', ''Cherry'']
   \<and> processed_of (db (process_article failing_env ''Apple'' \<lparr>tick = 20, db = fruit_store\<rparr>))
        ''Apple'' = Some True
   \<and> get_next_unprocessed_articles
        (db (process_article failing_env ''Apple'' \<lparr>tick = 20, db = fruit_store\<rparr>)) 100
       = Inr [''Cherry'']
   \<and> batch_run failing_env 100 \<lparr>tick = 20, db = fruit_store\<rparr> =
       Some (None, \<lparr>tick = 22, db =
         \<lparr>articles =
            [\<lparr>article_id = 1, title = ''Apple'', processed = True, last_updated = 10\<rparr>,
             \<lparr>article_id = 2, title = ''Banana'', processed = True, last_updated = 10\<rparr>,
             \<lparr>article_id = 3, title = ''Cherry'', processed = True, last_updated = 10\<rparr>],
          links = [\<lparr>link_id = 1, from_article_id = 2, to_article_title = ''Cherry''\<rparr>],
          articles_seq = 5, links_seq = 1\<rparr>\<rparr>)"
proof -
  note ev = process_article_def get_article_links_def failing_env_def
    save_article_links_def save_article_links_try_def execute_def execute_commit_def
    connect_def commit_def close_def fruit_store_def insert_or_ignore_article_def
    select_id_by_title_def update_processed_by_id_def next_rowid_def Let_def
    get_next_unprocessed_articles_def sql_limit_def processed_of_def lookup_article_def
  have a: "get_next_unprocessed_articles fruit_store 100 = Inr [''Apple'', ''Cherry'']"
    by (simp add: ev)
  have b: "processed_of (db (process_article failing_env ''Apple'' \<lparr>tick = 20, db = fruit_store\<rparr>))
        ''Apple'' = Some True"
    by (simp add: ev)
  have c: "get_next_unprocessed_articles
        (db (process_article failing_env ''Apple'' \<lparr>tick = 20, db = fruit_store\<rparr>)) 100
       = Inr [''Cherry'']"
    by (simp add: ev)
  have d: "batch_run failing_env 100 \<lparr>tick = 20, db = fruit_store\<rparr> =
       Some (None, \<lparr>tick = 22, db =
         \<lparr>articles =
            [\<lparr>article_id = 1, title = ''Apple'', processed = True, last_updated = 10\<rparr>,
             \<lparr>article_id = 2, title = ''Banana'', processed = True, last_updated = 10\<rparr>,
             \<lparr>article_id = 3, title = ''Cherry'', processed = True, last_updated = 10\<rparr>],
          links = [\<lparr>link_id = 1, from_article_id = 2, to_article_title = ''Cherry''\<rparr>],
          articles_seq = 5, links_seq = 1\<rparr>\<rparr>)"
    apply (subst batch_run.simps)
    apply (simp add: ev)
    apply (subst batch_run.simps)
    apply (simp add: ev)
    done
  from a b c d show ?thesis by simp
qed

subsection \<open>A save that fails leaves the article in the backlog\<close>

lemma process_article_save_fault:
  assumes "db_fault e (tick st) = ConnectFault
           \<or> (\<exists>k. db_fault e (tick st) = StatementFault k
                   \<and> k \<le> length (get_article_links (fetcher e (tick st) t)) + 3)"
  shows "db (process_article e t st) = db st"
  using assms
proof
  assume "db_fault e (tick st) = ConnectFault"
  then show ?thesis by (simp add: process_article_def save_article_links_def)
next
  let ?lnks = "get_article_links (fetcher e (tick st) t)"
  assume "\<exists>k. db_fault e (tick st) = StatementFault k \<and> k \<le> length ?lnks + 3"
  then obtain k where k: "db_fault e (tick st) = StatementFault k" "k \<le> length ?lnks + 3"
    by blast
  obtain c r where cr:
    "save_article_links_try (StatementFault k) (tick st) t ?lnks (connect (db st)) = (c, r)"
    by (cases "save_article_links_try (StatementFault k) (tick st) t ?lnks (connect (db st))")
  have r: "r \<noteq> None"
    using save_try_fails [OF k(2), of "tick st" t "connect (db st)"] cr by simp
  have "committed c = db st"
    using save_try_committed [of "StatementFault k" "tick st" t ?lnks "connect (db st)"] cr r
    by (simp add: connect_def)
  then show ?thesis using r
    by (auto simp: process_article_def save_article_links_def k(1) cr close_def rollback_def)
qed

subsection \<open>A run whose saves meet no fault ends\<close>

lemma backlog_update_by_id:
  "backlog (update_processed_by_id aid s)
     = map title (filter (\<lambda>a. \<not> processed a \<and> article_id a \<noteq> aid) (articles s))"
proof -
  have "map title (filter (\<lambda>a. \<not> processed a)
          (map (\<lambda>a. if article_id a = aid then a\<lparr>processed := True\<rparr> else a) xs))
        = map title (filter (\<lambda>a. \<not> processed a \<and> article_id a \<noteq> aid) xs)" for xs
    by (induction xs) simp_all
  then show ?thesis by (simp add: backlog_def update_processed_by_id_def)
qed

lemma id_is_title:
  assumes "valid_store s" and "select_id_by_title t s = Some aid" and "a \<in> set (articles s)"
  shows "article_id a = aid \<longleftrightarrow> title a = t"
proof
  assume "article_id a = aid"
  then have "select_id_by_title (title a) s = Some aid"
    using assms(1,3) find_distinct_title [of "articles s" a]
    by (simp add: select_id_by_title_def valid_store_def)
  then show "title a = t" using assms(1,2) select_id_inj by blast
next
  assume "title a = t"
  then have "find (\<lambda>b. title b = t) (articles s) = Some a"
    using assms(1,3) find_distinct_title [of "articles s" a] by (auto simp: valid_store_def)
  then show "article_id a = aid" using assms(2) by (simp add: select_id_by_title_def)
qed

lemma backlog_insert_article:
  "filter (\<lambda>u. u \<noteq> t) (backlog (insert_or_ignore_article now t False s))
     = filter (\<lambda>u. u \<noteq> t) (backlog s)"
  by (simp add: backlog_def insert_or_ignore_article_def Let_def)

lemma backlog_save:
  assumes "valid_store s"
    and "select_id_by_title t (insert_or_ignore_article now t False s) = Some aid"
  shows "backlog (update_processed_by_id aid
           (fold (insert_or_ignore_link aid) lnks (insert_or_ignore_article now t False s)))
         = filter (\<lambda>u. u \<noteq> t) (backlog s)"
proof -
  let ?s1 = "insert_or_ignore_article now t False s"
  have v1: "valid_store ?s1" using assms(1) by (rule valid_insert_article)
  have "filter (\<lambda>a. \<not> processed a \<and> article_id a \<noteq> aid) (articles ?s1)
          = filter (\<lambda>a. \<not> processed a \<and> title a \<noteq> t) (articles ?s1)"
    using id_is_title [OF v1 assms(2)] by (intro filter_cong) auto
  then have "backlog (update_processed_by_id aid (fold (insert_or_ignore_link aid) lnks ?s1))
          = map title (filter (\<lambda>a. \<not> processed a \<and> title a \<noteq> t) (articles ?s1))"
    by (simp add: backlog_update_by_id)
  also have "\<dots> = filter (\<lambda>u. u \<noteq> t) (backlog ?s1)"
    by (simp add: backlog_def filter_map comp_def conj_commute)
  finally show ?thesis by (simp add: backlog_insert_article)
qed

lemma process_article_backlog:
  assumes "valid_store (db st)" and "db_fault e (tick st) = NoFault"
  shows "backlog (db (process_article e t st)) = filter (\<lambda>u. u \<noteq> t) (backlog (db st))
       \<and> valid_store (db (process_article e t st))"
proof -
  let ?s1 = "insert_or_ignore_article (tick st) t False (db st)"
  let ?lnks = "get_article_links (fetcher e (tick st) t)"
  obtain aid where aid: "select_id_by_title t ?s1 = Some aid"
    using select_id_after_insert by blast
  let ?s' = "update_processed_by_id aid (fold (insert_or_ignore_link aid) ?lnks ?s1)"
  have "save_article_links NoFault (tick st) t ?lnks (db st) = Inr ?s'"
    using aid by (rule save_article_links_ok)
  then have step: "db (process_article e t st) = ?s'"
    using assms(2) by (simp add: process_article_def)
  show ?thesis unfolding step
    using backlog_save [OF assms(1) aid] valid_save [OF assms(1) aid] by simp
qed

lemma batch_backlog:
  assumes "\<forall>n. db_fault e n = NoFault" and "valid_store (db st)"
  shows "backlog (db (fold (process_article e) ts st))
           = filter (\<lambda>u. u \<notin> set ts) (backlog (db st))
       \<and> valid_store (db (fold (process_article e) ts st))"
  using assms(2)
proof (induction ts arbitrary: st)
  case Nil
  then show ?case by simp
next
  case (Cons t ts)
  have f: "db_fault e (tick st) = NoFault" using assms(1) by simp
  note step = process_article_backlog [OF Cons.prems f, of t]
  from Cons.IH [of "process_article e t st"] step
  show ?case by (simp add: conj_commute)
qed

text \<open>
  When no save meets a fault, a run with a batch size other than 0 that SQLite can
  take ends, whatever the requests give, and it ends with an empty backlog: a failing
  request does not keep a title in the queue. With the batch size 0 the first batch
  is empty and the run ends at once; with a batch size outside the 64-bit range the
  first read raises and ends the run.
\<close>

theorem batch_run_ends:
  assumes "\<forall>n. db_fault e n = NoFault" and "valid_store (db st)" and "batch_size \<noteq> 0"
    and "- (2 ^ 63) \<le> batch_size" and "batch_size < 2 ^ 63"
  shows "\<exists>st'. batch_run e batch_size st = Some (None, st') \<and> backlog (db st') = []
              \<and> valid_store (db st')"
  using assms(2)
proof (induction "length (backlog (db st))" arbitrary: st rule: less_induct)
  case less
  let ?batch = "sql_limit batch_size (backlog (db st))"
  have batch: "get_next_unprocessed_articles (db st) batch_size = Inr ?batch"
    using less.prems assms(4,5) by (simp add: get_next_backlog)
  show ?case
  proof (cases "?batch = []")
    case True
    then have "backlog (db st) = []"
      using assms(3) by (auto simp: sql_limit_def split: if_splits)
    moreover have "batch_run e batch_size st = Some (None, st)"
      using True by (subst batch_run.simps) (simp add: batch)
    ultimately show ?thesis using less.prems by simp
  next
    case False
    let ?st1 = "fold (process_article e) ?batch st"
    have sub: "set ?batch \<subseteq> set (backlog (db st))"
      using less.prems batch by (rule get_next_subset_backlog)
    from False obtain t where t: "t \<in> set ?batch" by (cases ?batch) auto
    note b = batch_backlog [OF assms(1) less.prems, of ?batch]
    have "length (filter (\<lambda>u. u \<notin> set ?batch) (backlog (db st))) < length (backlog (db st))"
      using t sub by (intro length_filter_less [of t]) auto
    then have "length (backlog (db ?st1)) < length (backlog (db st))"
      using b by simp
    from less.hyps [OF this] b obtain st' where
      "batch_run e batch_size ?st1 = Some (None, st')" "backlog (db st') = []"
      "valid_store (db st')"
      by blast
    moreover have "batch_run e batch_size st = batch_run e batch_size ?st1"
      using False by (subst batch_run.simps) (simp add: batch)
    ultimately show ?thesis by simp
  qed
qed

lemma batch_run_zero: "batch_run e 0 st = Some (None, st)"
  by (subst batch_run.simps) (simp add: get_next_unprocessed_articles_def sql_limit_def)

lemma batch_run_overflow:
  "batch_size < - (2 ^ 63) \<or> 2 ^ 63 \<le> batch_size \<Longrightarrow>
   batch_run e batch_size st = Some (Some OverflowError, st)"
  by (subst batch_run.simps) (auto simp: get_next_unprocessed_articles_def)

section \<open>Partitioning across machines\<close>

subsection \<open>The hash is a 128-bit number\<close>

lemma be_int_fold_bounds:
  "0 \<le> n \<Longrightarrow> 0 \<le> fold (\<lambda>b n. 256 * n + uint b) (bs :: byte list) n
           \<and> fold (\<lambda>b n. 256 * n + uint b) bs n < (n + 1) * 256 ^ length bs"
proof (induction bs arbitrary: n)
  case Nil
  then show ?case by simp
next
  case (Cons b bs)
  let ?n1 = "256 * n + uint b"
  let ?F = "fold (\<lambda>b n. 256 * n + uint b) bs ?n1"
  have b: "0 \<le> uint b" "uint b < 256" using uint_bounded [of b] by simp_all
  have n1: "0 \<le> ?n1" using Cons.prems b by simp
  have ih: "0 \<le> ?F" "?F < (?n1 + 1) * 256 ^ length bs"
    using Cons.IH [OF n1] by simp_all
  have "?n1 + 1 \<le> 256 * (n + 1)" using b by simp
  then have "(?n1 + 1) * 256 ^ length bs \<le> (256 * (n + 1)) * 256 ^ length bs"
    by (rule mult_right_mono) simp
  also have "\<dots> = (n + 1) * 256 ^ length (b # bs)" by simp
  finally have le: "(?n1 + 1) * 256 ^ length bs \<le> (n + 1) * 256 ^ length (b # bs)" .
  have "?F < (n + 1) * 256 ^ length (b # bs)"
    using ih(2) le by (rule less_le_trans)
  moreover have "fold (\<lambda>b n. 256 * n + uint b) (b # bs) n = ?F" by simp
  ultimately show ?case using ih(1) by (simp only: simp_thms)
qed

lemma length_md5_digest: "length (md5_digest m) = 16"
  by (simp add: md5_digest_def Let_def le_bytes_def split: prod.splits)

lemma get_article_hash_range: "0 \<le> get_article_hash t \<and> get_article_hash t < 2 ^ 128"
  using be_int_fold_bounds [of 0 "md5_digest (encode_utf8 t)"]
  by (simp add: get_article_hash_def be_int_def length_md5_digest)

subsection \<open>Seeding the articles table\<close>

lemma titles_populate:
  "titles (populate_articles_table now ts s) = titles s \<union> set ts"
  unfolding populate_articles_table_def
  by (induction ts arbitrary: s) (auto simp: titles_insert_article)

lemma populate_present:
  "set ts \<subseteq> titles s \<Longrightarrow> same_rows (populate_articles_table now ts s) s"
  unfolding populate_articles_table_def
proof (induction ts arbitrary: s)
  case Nil
  then show ?case by simp
next
  case (Cons t ts)
  let ?s1 = "insert_or_ignore_article now t False s"
  have s1: "same_rows ?s1 s"
    using Cons.prems by (simp add: same_rows_def insert_article_present titles_def)
  then have "set ts \<subseteq> titles ?s1"
    using Cons.prems by (simp add: same_rows_def titles_def)
  from Cons.IH [OF this] s1 show ?case by (auto intro: same_rows_trans)
qed

lemma populate_idempotent:
  "same_rows (populate_articles_table now' ts (populate_articles_table now ts s))
     (populate_articles_table now ts s)"
  by (rule populate_present) (simp add: titles_populate)

lemma valid_populate:
  "valid_store s \<Longrightarrow> valid_store (populate_articles_table now ts s)"
  unfolding populate_articles_table_def
  by (induction ts arbitrary: s) (simp_all add: valid_insert_article)

lemma my_titles_filter:
  "total_machines \<noteq> 0 \<Longrightarrow>
   my_titles machine_id total_machines ts
     = Inr (filter (\<lambda>t. get_article_hash t mod total_machines = machine_id) ts)"
  by (induction ts) (simp_all add: should_process_article_def)

subsection \<open>Every title has one machine\<close>

text \<open>
  Claim C3. The machine of a title is a function of the title and the machine count
  alone, \<^verbatim>\<open>get_article_hash\<close> (the MD5 digest of the UTF-8 bytes, read as an unsigned
  number of 128 bits) modulo \<open>N\<close>. For \<open>N \<ge> 1\<close> it lies in \<open>[0, N)\<close>, it is the only machine
  id for which \<^verbatim>\<open>should_process_article\<close> holds, the sets of titles of two
  different machine ids are disjoint, and the sets of the ids in \<open>[0, N)\<close> cover
  every title.
\<close>

theorem should_process_article_partition:
  assumes "1 \<le> N"
  shows "should_process_article (get_article_hash t mod N) N t = Inr True
       \<and> 0 \<le> get_article_hash t \<and> get_article_hash t < 2 ^ 128
       \<and> 0 \<le> get_article_hash t mod N \<and> get_article_hash t mod N < N
       \<and> (should_process_article i N t = Inr True \<longrightarrow> i = get_article_hash t mod N)
       \<and> (i \<noteq> j \<longrightarrow> {t. should_process_article i N t = Inr True}
                      \<inter> {t. should_process_article j N t = Inr True} = {})
       \<and> (\<Union>i \<in> {0..<N}. {t. should_process_article i N t = Inr True}) = UNIV"
proof -
  have sp: "should_process_article k N u = Inr (get_article_hash u mod N = k)" for k u
    using assms by (simp add: should_process_article_def)
  have rng: "0 \<le> get_article_hash u mod N \<and> get_article_hash u mod N < N" for u
    using assms by simp
  have "(\<Union>i \<in> {0..<N}. {t. should_process_article i N t = Inr True}) = UNIV"
    using rng by (auto simp: sp)
  with rng [of t] get_article_hash_range [of t] show ?thesis by (auto simp: sp)
qed

text \<open>The digest agrees with the test suite of RFC 1321 on \<^verbatim>\<open>abc\<close>.\<close>

lemma md5_abc: "get_article_hash ''abc'' = 0x900150983cd24fb0d6963f7d28e17f72"
  by code_simp

theorem should_process_article_partition_witness:
  "(1::int) \<le> 3
   \<and> get_article_hash ''Apple'' mod 3 = 1
   \<and> should_process_article 1 3 ''Apple'' = Inr True
   \<and> should_process_article 0 3 ''Apple'' = Inr False
   \<and> should_process_article 2 3 ''Apple'' = Inr False"
proof -
  have h: "get_article_hash ''Apple'' = 0x9f6290f4436e5a2351f12e03b6433c3c"
    by code_simp
  show ?thesis using should_process_article_partition [of 3 "''Apple''" 0 2]
    by (simp add: should_process_article_def h)
qed

end
